theory Spec2Isabelle
  imports Main "HOL-Library.Sublist"
begin

section \<open>Spreadsheet ingestion (utils/parseExcel)\<close>

text \<open>
  JavaScript strings are modelled as \<^typ>\<open>string\<close>: one \<^typ>\<open>char\<close> per code unit,
  restricted to the code units below 256.

  The worksheet library is external. A worksheet is represented by the row objects that
  \<^verbatim>\<open>XLSX.utils.sheet_to_json(sheet, { defval: '' })\<close> yields for it: one object per data
  row, keyed by the header cells. A cell value is either a string or a value of another
  JavaScript type (number, boolean, date); the latter is carried as the text that
  \<^verbatim>\<open>String(v)\<close> converts it to.
\<close>

datatype cell = CellString string | CellOther string

type_synonym row = "(string \<times> cell) list"

type_synonym sheet = "row list"

record workbook =
  SheetNames :: "string list"
  Sheets :: "string \<Rightarrow> sheet option"

text \<open>
  \<^verbatim>\<open>XLSX.read\<close> either throws an error carrying a message or returns a workbook. The
  \<^verbatim>\<open>FileReader\<close> either fires \<^verbatim>\<open>onerror\<close>, or fires \<^verbatim>\<open>onload\<close> with the bytes
  on which \<^verbatim>\<open>XLSX.read\<close> is then run.
\<close>

datatype xlsx_read = Throws string | Returns workbook

datatype reader_event = OnLoad xlsx_read | OnError

record File =
  name :: string
  reading :: reader_event

record parse_result =
  filename :: string
  inputs :: "string list"
  outputs :: "string list"
  error :: "string option"

datatype 'a promise = Resolved 'a | Rejected string

definition REQUIRED_SHEETS :: "string list" where
  "REQUIRED_SHEETS = [''INPUTS'', ''OUTPUTS'']"

text \<open>\<^verbatim>\<open>String(v)\<close> on a cell value.\<close>

fun String :: "cell \<Rightarrow> string" where
  "String (CellString s) = s"
| "String (CellOther s) = s"

text \<open>
  The code units below 256 that \<^verbatim>\<open>String.prototype.trim\<close> strips: tab, line feed,
  vertical tab, form feed, carriage return, space and no-break space.
\<close>

definition isWhiteSpace :: "char \<Rightarrow> bool" where
  "isWhiteSpace c = (of_char c \<in> {9, 10, 11, 12, 13, 32, 160 :: nat})"

definition trim :: "string \<Rightarrow> string" where
  "trim s = rev (dropWhile isWhiteSpace (rev (dropWhile isWhiteSpace s)))"

text \<open>\<^verbatim>\<open>Array.prototype.join\<close> on an array of strings.\<close>

fun join :: "string \<Rightarrow> string list \<Rightarrow> string" where
  "join sep [] = []"
| "join sep [x] = x"
| "join sep (x # y # ys) = x @ sep @ join sep (y # ys)"

text \<open>
  \<^verbatim>\<open>sheet_to_json\<close> returns the empty array for an undefined sheet, and the rows of a
  sheet otherwise.
\<close>

fun sheet_to_json :: "sheet option \<Rightarrow> row list" where
  "sheet_to_json None = []"
| "sheet_to_json (Some rows) = rows"

text \<open>\<^verbatim>\<open>String(row['variable_name'] ?? '').trim()\<close>\<close>

definition variable_name_of :: "row \<Rightarrow> string" where
  "variable_name_of r =
     trim (String (case map_of r ''variable_name'' of None \<Rightarrow> CellString [] | Some v \<Rightarrow> v))"

definition readVariableNames :: "sheet option \<Rightarrow> string list" where
  "readVariableNames sh = filter (\<lambda>s. s \<noteq> []) (map variable_name_of (sheet_to_json sh))"

text \<open>The statements of the \<^verbatim>\<open>try\<close> block that follow \<^verbatim>\<open>XLSX.read\<close>.\<close>

definition fromWorkbook :: "string \<Rightarrow> workbook \<Rightarrow> parse_result" where
  "fromWorkbook fname wb =
     (let found = SheetNames wb;
          missing = filter (\<lambda>s. s \<notin> set found) REQUIRED_SHEETS
      in if length missing > 0 then
           (let missingList = join '' and '' missing;
                foundList = (if length found \<noteq> 0 then join '', '' found
                             else ''(no sheets found)'')
            in \<lparr>filename = fname, inputs = [], outputs = [],
                error = Some (''Required sheet'' @ (if length missing > 1 then ''s'' else [])
                              @ '' not found: '' @ missingList @ ''. ''
                              @ ''Sheets in this file: '' @ foundList @ ''.'')\<rparr>)
         else
           \<lparr>filename = fname,
            inputs = readVariableNames (Sheets wb ''INPUTS''),
            outputs = readVariableNames (Sheets wb ''OUTPUTS''),
            error = None\<rparr>)"

text \<open>
  The \<^verbatim>\<open>try\<close> block of \<^verbatim>\<open>reader.onload\<close>: \<open>Inl message\<close> is an error thrown
  inside it, \<open>Inr r\<close> the result it resolves the promise with. The error is the one
  of \<^verbatim>\<open>XLSX.read\<close>; the statements after it work on the rows of the sheets and do
  not throw.
\<close>

definition tryBlock :: "string \<Rightarrow> xlsx_read \<Rightarrow> string + parse_result" where
  "tryBlock fname r =
     (case r of
        Throws message \<Rightarrow> Inl message
      | Returns wb \<Rightarrow> Inr (fromWorkbook fname wb))"

text \<open>\<^verbatim>\<open>reader.onload\<close>: the \<^verbatim>\<open>try\<close> block with its \<^verbatim>\<open>catch\<close>.\<close>

definition onload :: "string \<Rightarrow> xlsx_read \<Rightarrow> parse_result" where
  "onload fname r =
     (case tryBlock fname r of
        Inr res \<Rightarrow> res
      | Inl message \<Rightarrow>
          \<lparr>filename = fname, inputs = [], outputs = [],
           error = Some (''Could not parse file: '' @ message)\<rparr>)"

definition onerror :: "string \<Rightarrow> parse_result" where
  "onerror fname =
     \<lparr>filename = fname, inputs = [], outputs = [],
      error = Some ''Failed to read the file from disk.''\<rparr>"

text \<open>
  The promise that \<^verbatim>\<open>parseExcelFile\<close> returns is settled by whichever handler the
  reader fires; no path of the executor calls a rejection.
\<close>

fun parseExcelFile :: "File \<Rightarrow> parse_result promise" where
  "parseExcelFile f =
     (case reading f of
        OnLoad r \<Rightarrow> Resolved (onload (name f) r)
      | OnError \<Rightarrow> Resolved (onerror (name f)))"

text \<open>
  The values of a column of a sheet, as the specification speaks of them: for each row in
  row order, the text of the cell under the column's header, and the empty string where
  the row has no such cell.
\<close>

definition column :: "string \<Rightarrow> sheet option \<Rightarrow> string list" where
  "column key sh =
     map (\<lambda>r. case map_of r key of None \<Rightarrow> [] | Some v \<Rightarrow> String v) (sheet_to_json sh)"

section \<open>The model node (nodes/ModelNode)\<close>

text \<open>
  The \<^verbatim>\<open>data\<close> object of a node: \<^verbatim>\<open>label\<close>, \<^verbatim>\<open>order\<close>, \<^verbatim>\<open>inputs\<close>, \<^verbatim>\<open>outputs\<close>
  and \<^verbatim>\<open>error\<close>. A node of the canvas carries its \<^verbatim>\<open>id\<close>, its \<^verbatim>\<open>type\<close>, its
  \<^verbatim>\<open>position\<close> and its
  \<^verbatim>\<open>data\<close>.
\<close>

record node_data =
  label :: string
  order :: "nat option"
  data_inputs :: "string list"
  data_outputs :: "string list"
  data_error :: "string option"

record node =
  node_id :: string
  node_type :: string
  position :: "int \<times> int"
  data :: node_data

text \<open>
  The object literal handed to \<^verbatim>\<open>patchData\<close>: each key is either absent (\<open>None\<close>) or
  present with a value.
\<close>

record updates =
  upd_label :: "string option"
  upd_inputs :: "string list option"
  upd_outputs :: "string list option"
  upd_error :: "string option option"

text \<open>\<^verbatim>\<open>{ ...n.data, ...updates }\<close>: the keys present in \<^verbatim>\<open>updates\<close> override.\<close>

definition spread :: "node_data \<Rightarrow> updates \<Rightarrow> node_data" where
  "spread d u =
     \<lparr>label = (case upd_label u of None \<Rightarrow> label d | Some v \<Rightarrow> v),
      order = order d,
      data_inputs = (case upd_inputs u of None \<Rightarrow> data_inputs d | Some v \<Rightarrow> v),
      data_outputs = (case upd_outputs u of None \<Rightarrow> data_outputs d | Some v \<Rightarrow> v),
      data_error = (case upd_error u of None \<Rightarrow> data_error d | Some v \<Rightarrow> v)\<rparr>"

text \<open>The updater that \<^verbatim>\<open>patchData\<close> passes to \<^verbatim>\<open>setNodes\<close>, applied to the node array.\<close>

definition patchData :: "string \<Rightarrow> updates \<Rightarrow> node list \<Rightarrow> node list" where
  "patchData ident u nds =
     map (\<lambda>n. if node_id n = ident then n\<lparr>data := spread (data n) u\<rparr> else n) nds"

text \<open>\<^verbatim>\<open>/\.(xlsx|xls)$/i.test(f.name)\<close>\<close>

definition toLower :: "char \<Rightarrow> char" where
  "toLower c =
     (if 65 \<le> (of_char c :: nat) \<and> (of_char c :: nat) \<le> 90
      then char_of (of_char c + 32 :: nat) else c)"

definition endsWith :: "string \<Rightarrow> string \<Rightarrow> bool" where
  "endsWith s suf = (length suf \<le> length s \<and> drop (length s - length suf) s = suf)"

definition isExcelName :: "string \<Rightarrow> bool" where
  "isExcelName nm = (endsWith (map toLower nm) ''.xlsx'' \<or> endsWith (map toLower nm) ''.xls'')"

text \<open>
  \<^verbatim>\<open>onDrop\<close>, given the files of the drop and the node array at the moment the patch is
  applied. A rejected promise would make the \<^verbatim>\<open>await\<close> throw before any patch.
\<close>

definition onDrop :: "string \<Rightarrow> File list \<Rightarrow> node list \<Rightarrow> node list" where
  "onDrop ident files nds =
     (case find (\<lambda>f. isExcelName (name f)) files of
        None \<Rightarrow>
          patchData ident
            \<lparr>upd_label = None, upd_inputs = None, upd_outputs = None,
             upd_error = Some (Some ''Only .xlsx / .xls files are accepted.'')\<rparr> nds
      | Some f \<Rightarrow>
          (case parseExcelFile f of
             Resolved result \<Rightarrow>
               patchData ident
                 \<lparr>upd_label = Some (filename result), upd_inputs = Some (inputs result),
                  upd_outputs = Some (outputs result), upd_error = Some (error result)\<rparr> nds
           | Rejected _ \<Rightarrow> nds))"

text \<open>
  The elements that the component returns for a port column: the \<^verbatim>\<open>none\<close> paragraph
  when the array is empty, and otherwise one row element per element of the array, each
  with its \<^verbatim>\<open>key\<close>, its \<^verbatim>\<open>Handle\<close> and the \<^verbatim>\<open>title\<close> and text of its
  \<^verbatim>\<open>span\<close>. These are the elements handed to the rendering library; what the library
  mounts from them is not part of this model.
\<close>

datatype handle_type = Source | Target

datatype Position = Left | Right

record handle =
  handle_type :: handle_type
  handle_position :: Position
  handle_id :: string

record port_row =
  row_key :: string
  row_handle :: handle
  row_title :: string
  row_text :: string

datatype port_column = NoneParagraph | PortRows "port_row list"

definition inputsColumn :: "string list \<Rightarrow> port_column" where
  "inputsColumn ins =
     (if length ins = 0 then NoneParagraph
      else PortRows
        (map (\<lambda>nm. \<lparr>row_key = nm,
                       row_handle = \<lparr>handle_type = Target, handle_position = Left,
                                     handle_id = ''in-'' @ nm\<rparr>,
                       row_title = nm, row_text = nm\<rparr>) ins))"

definition outputsColumn :: "string list \<Rightarrow> port_column" where
  "outputsColumn outs =
     (if length outs = 0 then NoneParagraph
      else PortRows
        (map (\<lambda>nm. \<lparr>row_key = nm,
                       row_handle = \<lparr>handle_type = Source, handle_position = Right,
                                     handle_id = ''out-'' @ nm\<rparr>,
                       row_title = nm, row_text = nm\<rparr>) outs))"

section \<open>The canvas (App)\<close>

text \<open>
  A connection request names a source node and handle and a target node and handle; a
  handle may be \<^verbatim>\<open>null\<close>. An edge is a connection with an \<^verbatim>\<open>id\<close>, the \<^verbatim>\<open>animated\<close>
  flag and the stroke colour of its \<^verbatim>\<open>style\<close>.
\<close>

record connection =
  source :: string
  sourceHandle :: "string option"
  target :: string
  targetHandle :: "string option"

record edge = connection +
  edge_id :: string
  animated :: bool
  stroke :: string

text \<open>
  \<^verbatim>\<open>addEdge\<close> is the function of the flow library, not of this repository. It returns the
  edge array unchanged when the source or the target is empty, or when an edge with the
  same endpoints is already there; otherwise it appends the edge, with an id built from
  its endpoints when it carries none.
\<close>

definition getEdgeId :: "string \<Rightarrow> string option \<Rightarrow> string \<Rightarrow> string option \<Rightarrow> string" where
  "getEdgeId s sh t th =
     ''xy-edge__'' @ s @ (case sh of None \<Rightarrow> [] | Some h \<Rightarrow> h) @ ''-'' @ t
       @ (case th of None \<Rightarrow> [] | Some h \<Rightarrow> h)"

definition falsy :: "string option \<Rightarrow> bool" where
  "falsy h = (h = None \<or> h = Some [])"

definition connectionExists :: "'a connection_scheme \<Rightarrow> edge list \<Rightarrow> bool" where
  "connectionExists e eds =
     list_ex (\<lambda>el. source el = source e \<and> target el = target e
        \<and> (sourceHandle el = sourceHandle e \<or> (falsy (sourceHandle el) \<and> falsy (sourceHandle e)))
        \<and> (targetHandle el = targetHandle e \<or> (falsy (targetHandle el) \<and> falsy (targetHandle e))))
       eds"

definition addEdge :: "connection \<Rightarrow> bool \<Rightarrow> string \<Rightarrow> edge list \<Rightarrow> edge list" where
  "addEdge params anim colour eds =
     (if source params = [] \<or> target params = [] then eds
      else
        (let e = \<lparr>source = source params, sourceHandle = sourceHandle params,
                  target = target params, targetHandle = targetHandle params,
                  edge_id = getEdgeId (source params) (sourceHandle params)
                              (target params) (targetHandle params),
                  animated = anim, stroke = colour\<rparr>
         in if connectionExists e eds then eds else eds @ [e]))"

text \<open>
  \<^verbatim>\<open>onConnect\<close>: the updater passed to \<^verbatim>\<open>setEdges\<close>, applied to the edge array.
  The request goes to \<^verbatim>\<open>addEdge\<close> with \<^verbatim>\<open>animated: true\<close> and the stroke colour.
\<close>

definition onConnect :: "connection \<Rightarrow> edge list \<Rightarrow> edge list" where
  "onConnect params eds = addEdge params True ''#6366f1'' eds"

definition SAMPLE_NODES :: "node list" where
  "SAMPLE_NODES =
     [\<lparr>node_id = ''node-1'', node_type = ''modelNode'', position = (80, 120),
       data = \<lparr>label = ''Revenue Model.xlsx'', order = Some 1,
               data_inputs = [''tax_rate'', ''discount_rate''],
               data_outputs = [''gross_revenue'', ''net_revenue'', ''ebitda''],
               data_error = None\<rparr>\<rparr>,
      \<lparr>node_id = ''node-2'', node_type = ''modelNode'', position = (520, 80),
       data = \<lparr>label = ''Cost Model.xlsx'', order = Some 2,
               data_inputs = [''gross_revenue'', ''headcount''],
               data_outputs = [''cogs'', ''opex'', ''gross_profit''],
               data_error = None\<rparr>\<rparr>,
      \<lparr>node_id = ''node-3'', node_type = ''modelNode'', position = (520, 340),
       data = \<lparr>label = ''Headcount Model.xlsx'', order = None,
               data_inputs = [],
               data_outputs = [''headcount''],
               data_error = None\<rparr>\<rparr>]"

definition SAMPLE_EDGES :: "edge list" where
  "SAMPLE_EDGES =
     [\<lparr>source = ''node-1'', sourceHandle = Some ''out-gross_revenue'',
       target = ''node-2'', targetHandle = Some ''in-gross_revenue'',
       edge_id = ''e1-2-revenue'', animated = True, stroke = ''#6366f1''\<rparr>,
      \<lparr>source = ''node-3'', sourceHandle = Some ''out-headcount'',
       target = ''node-2'', targetHandle = Some ''in-headcount'',
       edge_id = ''e3-2-headcount'', animated = True, stroke = ''#10b981''\<rparr>]"

section \<open>The dependency graph and the order engine\<close>

text \<open>
  The source holds no graph store and no order engine: the canvas keeps the nodes and
  the edges of the flow library and shows the \<^verbatim>\<open>order\<close> badge it is given. The
  definitions of this section follow the specification of the engine.
\<close>

text \<open>
  Modelled from the spec: the direction of a port reference, output or input; the source
  has no such type.
\<close>

datatype direction = Input | Output

text \<open>
  Modelled from the spec: the port reference (node id, direction, variable name), an edge
  endpoint; the source has no such type.
\<close>

record port_ref =
  nodeId :: string
  direction :: direction
  variableName :: string

text \<open>
  Modelled from the spec: the node of the graph store, with its id, label, ordered input and
  output port names and optional load error; the derived rank is what
  \<^verbatim>\<open>computeRanks\<close> returns. The source has no graph store.
\<close>

record graph_node =
  nid :: string
  nlabel :: string
  ninputs :: "string list"
  noutputs :: "string list"
  loadError :: "string option"

text \<open>
  Modelled from the spec: the edge of the graph store, from an output port reference to an
  input port reference; the source has no graph store.
\<close>

record graph_edge =
  eid :: string
  edgeSource :: port_ref
  edgeTarget :: port_ref

text \<open>
  Modelled from the spec: the graph, all nodes and all edges; the source has no graph store.
\<close>

record graph =
  nodes :: "graph_node list"
  edges :: "graph_edge list"

text \<open>
  Modelled from the spec: the two reasons for which a node is unorderable; the source has no
  such type.
\<close>

datatype unorderable = DegradedInput | Cyclic

text \<open>
  Modelled from the spec: the rank result, a rank or an unorderable marker; the source
  has no such type.
\<close>

datatype RankResult = Ranked nat | Unorderable unorderable

text \<open>
  Modelled from the spec: the dependencies of a graph, one pair (source node, target
  node) per edge; the order engine reads nothing else of an edge.
\<close>

definition deps :: "graph \<Rightarrow> (string \<times> string) list" where
  "deps g = map (\<lambda>e. (nodeId (edgeSource e), nodeId (edgeTarget e))) (edges g)"

subsection \<open>Step 1: the degraded nodes\<close>

text \<open>
  The nodes with a load error are marked, along with every node that depends on a marked
  node through an edge, until no further node is reached.
\<close>

text \<open>
  Modelled from the spec: the nodes not marked yet that depend, through an edge, on a
  marked node (one round of step 1 of \<^verbatim>\<open>computeRanks\<close>, absent from the source).
\<close>

definition dependentsOf :: "('a \<times> 'a) list \<Rightarrow> 'a list \<Rightarrow> 'a list \<Rightarrow> 'a list" where
  "dependentsOf es marked rest =
     filter (\<lambda>v. list_ex (\<lambda>(s, t). t = v \<and> s \<in> set marked) es) rest"

text \<open>
  Modelled from the spec: the closure of step 1 of \<^verbatim>\<open>computeRanks\<close>, absent from the
  source: rounds of marking until no further node is reached.
\<close>

function degradedClosure :: "('a \<times> 'a) list \<Rightarrow> 'a list \<Rightarrow> 'a list \<Rightarrow> 'a list" where
  "degradedClosure es marked rest =
     (if dependentsOf es marked rest = [] then marked
      else degradedClosure es (marked @ dependentsOf es marked rest)
             (filter (\<lambda>v. v \<notin> set (dependentsOf es marked rest)) rest))"
  by pat_completeness auto
termination
proof (relation "measure (\<lambda>(es, marked, rest). length rest)")
  show "wf (measure (\<lambda>(es, marked, rest). length rest))"
    by simp
next
  fix es :: "('a \<times> 'a) list" and marked rest :: "'a list"
  assume "dependentsOf es marked rest \<noteq> []"
  then obtain x where x: "x \<in> set (dependentsOf es marked rest)"
    by (cases "dependentsOf es marked rest") auto
  then have "x \<in> set rest"
    by (simp add: dependentsOf_def)
  with x have "length (filter (\<lambda>v. v \<notin> set (dependentsOf es marked rest)) rest) < length rest"
    by (intro length_filter_less [of x]) simp_all
  then show "((es, marked @ dependentsOf es marked rest,
       filter (\<lambda>v. v \<notin> set (dependentsOf es marked rest)) rest), es, marked, rest)
     \<in> measure (\<lambda>(es, marked, rest). length rest)"
    by simp
qed

declare degradedClosure.simps [simp del]

subsection \<open>Steps 2 to 5: the layers\<close>

text \<open>
  The in-degree of a node counts the working edges into it. The layer of a round holds
  the nodes still to rank whose in-degree is 0; they get the rank of the round, and they
  and their outgoing edges are removed. When no layer forms, the nodes left are the
  cyclic ones.
\<close>

text \<open>
  Modelled from the spec: the in-degree of a node over the working edges (step 2 of
  \<^verbatim>\<open>computeRanks\<close>, absent from the source).
\<close>

definition inDegree :: "('a \<times> 'a) list \<Rightarrow> 'a \<Rightarrow> nat" where
  "inDegree work v = length (filter (\<lambda>(s, t). t = v) work)"

text \<open>
  Modelled from the spec: the layer of a round, the nodes still to rank whose in-degree is 0
  (steps 3 and 4 of \<^verbatim>\<open>computeRanks\<close>, absent from the source).
\<close>

definition readyLayer :: "('a \<times> 'a) list \<Rightarrow> 'a list \<Rightarrow> 'a list" where
  "readyLayer work todo = filter (\<lambda>v. inDegree work v = 0) todo"

text \<open>
  Modelled from the spec: the rounds of steps 3 to 5 of \<^verbatim>\<open>computeRanks\<close>, absent from the
  source. The result is the ranks given and the nodes left unranked.
\<close>

function layering ::
  "nat \<Rightarrow> 'a list \<Rightarrow> ('a \<times> 'a) list \<Rightarrow> ('a \<times> nat) list \<Rightarrow> ('a \<times> nat) list \<times> 'a list"
where
  "layering k todo work ranked =
     (if readyLayer work todo = [] then (ranked, todo)
      else layering (Suc k)
             (filter (\<lambda>v. v \<notin> set (readyLayer work todo)) todo)
             (filter (\<lambda>(s, t). s \<notin> set (readyLayer work todo)) work)
             (ranked @ map (\<lambda>v. (v, k)) (readyLayer work todo)))"
  by pat_completeness auto
termination
proof (relation "measure (\<lambda>(k, todo, work, ranked). length todo)")
  show "wf (measure (\<lambda>(k, todo, work, ranked). length todo))"
    by simp
next
  fix k :: nat and todo :: "'a list" and work :: "('a \<times> 'a) list"
    and ranked :: "('a \<times> nat) list"
  assume "readyLayer work todo \<noteq> []"
  then obtain x where x: "x \<in> set (readyLayer work todo)"
    by (cases "readyLayer work todo") auto
  then have "x \<in> set todo"
    by (simp add: readyLayer_def)
  with x have "length (filter (\<lambda>v. v \<notin> set (readyLayer work todo)) todo) < length todo"
    by (intro length_filter_less [of x]) simp_all
  then show "((Suc k, filter (\<lambda>v. v \<notin> set (readyLayer work todo)) todo,
       filter (\<lambda>(s, t). s \<notin> set (readyLayer work todo)) work,
       ranked @ map (\<lambda>v. (v, k)) (readyLayer work todo)), k, todo, work, ranked)
     \<in> measure (\<lambda>(k, todo, work, ranked). length todo)"
    by simp
qed

declare layering.simps [simp del]

subsection \<open>The ranks\<close>

text \<open>
  Modelled from the spec: the nodes that step 1 of \<^verbatim>\<open>computeRanks\<close> (absent from the
  source) marks as degraded: those with a load error and their transitive dependents.
\<close>

definition degradedNodes :: "graph \<Rightarrow> string list" where
  "degradedNodes g =
     degradedClosure (deps g)
       (map nid (filter (\<lambda>n. loadError n \<noteq> None) (nodes g)))
       (map nid (filter (\<lambda>n. loadError n = None) (nodes g)))"

text \<open>
  Modelled from the spec: the nodes that remain after step 1 of \<^verbatim>\<open>computeRanks\<close>
  (absent from the source).
\<close>

definition remainingNodes :: "graph \<Rightarrow> string list" where
  "remainingNodes g = filter (\<lambda>v. v \<notin> set (degradedNodes g)) (map nid (nodes g))"

text \<open>
  Modelled from the spec: the edges among the remaining nodes, from which step 2 of
  \<^verbatim>\<open>computeRanks\<close> (absent from the source) builds the in-degrees.
\<close>

definition remainingEdges :: "graph \<Rightarrow> (string \<times> string) list" where
  "remainingEdges g =
     filter (\<lambda>(s, t). s \<in> set (remainingNodes g) \<and> t \<in> set (remainingNodes g)) (deps g)"

text \<open>
  Modelled from the spec: \<^verbatim>\<open>computeRanks\<close>, absent from the source. The degraded nodes
  are excluded first; the in-degrees are built from the edges among the remaining nodes;
  the layers give the ranks, and what is left after the last layer is cyclic.
\<close>

definition computeRanks :: "graph \<Rightarrow> string \<Rightarrow> RankResult option" where
  "computeRanks g =
     (case layering 0 (remainingNodes g) (remainingEdges g) [] of
        (ranked, cyclic) \<Rightarrow>
          map_of (map (\<lambda>v. (v, Unorderable DegradedInput)) (degradedNodes g)
                  @ map (\<lambda>(v, k). (v, Ranked k)) ranked
                  @ map (\<lambda>v. (v, Unorderable Cyclic)) cyclic))"

text \<open>
  Modelled from the spec: a node is degraded when the node itself or a transitive
  dependency is in error state, that is, when a chain of edges, each leading to a node of
  the graph, runs to it from a node with a load error. The source has no such notion.
\<close>

definition dependsOnError :: "graph \<Rightarrow> string \<Rightarrow> bool" where
  "dependsOnError g v =
     (\<exists>u \<in> set (map nid (filter (\<lambda>n. loadError n \<noteq> None) (nodes g))).
        (u, v) \<in> {(s, t). (s, t) \<in> set (deps g) \<and> t \<in> set (map nid (nodes g))}\<^sup>*)"

text \<open>
  A graph to try the engine on: the chain from A to B to C without load errors, and a
  node D with a load error that feeds a node E.
\<close>

definition chainWithError :: graph where
  "chainWithError =
     \<lparr>nodes = [\<lparr>nid = ''A'', nlabel = ''A'', ninputs = [], noutputs = [''x''],
                loadError = None\<rparr>,
               \<lparr>nid = ''B'', nlabel = ''B'', ninputs = [''x''], noutputs = [''y''],
                loadError = None\<rparr>,
               \<lparr>nid = ''C'', nlabel = ''C'', ninputs = [''y''], noutputs = [],
                loadError = None\<rparr>,
               \<lparr>nid = ''D'', nlabel = ''D'', ninputs = [], noutputs = [''z''],
                loadError = Some ''Failed to read the file from disk.''\<rparr>,
               \<lparr>nid = ''E'', nlabel = ''E'', ninputs = [''z''], noutputs = [],
                loadError = None\<rparr>],
      edges = [\<lparr>eid = ''e1'',
                edgeSource = \<lparr>nodeId = ''A'', direction = Output, variableName = ''x''\<rparr>,
                edgeTarget = \<lparr>nodeId = ''B'', direction = Input, variableName = ''x''\<rparr>\<rparr>,
               \<lparr>eid = ''e2'',
                edgeSource = \<lparr>nodeId = ''B'', direction = Output, variableName = ''y''\<rparr>,
                edgeTarget = \<lparr>nodeId = ''C'', direction = Input, variableName = ''y''\<rparr>\<rparr>,
               \<lparr>eid = ''e3'',
                edgeSource = \<lparr>nodeId = ''D'', direction = Output, variableName = ''z''\<rparr>,
                edgeTarget = \<lparr>nodeId = ''E'', direction = Input, variableName = ''z''\<rparr>\<rparr>]\<rparr>"

section \<open>Properties of the ingestion\<close>

lemma filename_onload: "filename (onload fname r) = fname"
  by (simp add: onload_def tryBlock_def fromWorkbook_def Let_def split: xlsx_read.split)

lemma error_empty_onload:
  "error (onload fname r) = Some e \<Longrightarrow>
     inputs (onload fname r) = [] \<and> outputs (onload fname r) = []"
  by (auto simp add: onload_def tryBlock_def fromWorkbook_def Let_def
      split: xlsx_read.splits if_splits)

lemma missing_cases:
  "filter (\<lambda>s. s \<notin> set found) REQUIRED_SHEETS =
     (if ''INPUTS'' \<in> set found then (if ''OUTPUTS'' \<in> set found then [] else [''OUTPUTS''])
      else if ''OUTPUTS'' \<in> set found then [''INPUTS''] else [''INPUTS'', ''OUTPUTS''])"
  by (simp add: REQUIRED_SHEETS_def)

lemma fromWorkbook_present:
  assumes "''INPUTS'' \<in> set (SheetNames wb)" and "''OUTPUTS'' \<in> set (SheetNames wb)"
  shows "fromWorkbook fname wb =
     \<lparr>filename = fname, inputs = readVariableNames (Sheets wb ''INPUTS''),
      outputs = readVariableNames (Sheets wb ''OUTPUTS''), error = None\<rparr>"
  using assms by (simp add: fromWorkbook_def missing_cases)

lemma readVariableNames_column:
  "readVariableNames sh = filter (\<lambda>s. s \<noteq> []) (map trim (column ''variable_name'' sh))"
proof -
  have eq: "variable_name_of =
      (\<lambda>r. trim (case map_of r ''variable_name'' of None \<Rightarrow> [] | Some v \<Rightarrow> String v))"
    by (rule ext) (simp add: variable_name_of_def split: option.split)
  show ?thesis
    by (simp add: readVariableNames_def column_def comp_def eq)
qed

lemma count_list_nonblank:
  "s \<noteq> [] \<Longrightarrow> count_list (filter (\<lambda>s. s \<noteq> []) xs) s = count_list xs s"
  for s :: string
  by (induction xs) auto

lemma trim_Nil: "trim [] = []"
  by (simp add: trim_def)

lemma readVariableNames_no_column:
  assumes "\<forall>r \<in> set (sheet_to_json sh). map_of r ''variable_name'' = None"
  shows "readVariableNames sh = []"
proof -
  have "variable_name_of r = []" if "r \<in> set (sheet_to_json sh)" for r
    using assms that by (simp add: variable_name_of_def trim_Nil)
  then show ?thesis
    by (simp add: readVariableNames_def filter_empty_conv)
qed

lemma parse_error_shape:
  assumes "parseExcelFile f = Resolved r" and "error r = Some e"
  shows "r = \<lparr>filename = name f, inputs = [], outputs = [], error = Some e\<rparr>"
proof (cases "reading f")
  case (OnLoad x)
  with assms have r: "r = onload (name f) x" by simp
  show ?thesis
    using assms(2) error_empty_onload [of "name f" x e] filename_onload [of "name f" x]
    unfolding r by (intro parse_result.equality) simp_all
next
  case OnError
  with assms show ?thesis by (auto simp add: onerror_def)
qed

text \<open>
  C1 (as the code has it). When a required sheet is absent, the promise resolves with
  empty inputs and outputs and with the message \<open>Required sheet not found: X. Sheets in
  this file: ... .\<close> when one sheet X is missing, and \<open>Required sheets not found: INPUTS
  and OUTPUTS. Sheets in this file: ... .\<close> when both are; the sheets present are joined
  by a comma and a space, or replaced by \<open>(no sheets found)\<close> when there are none. The word
  is \<open>sheet\<close> or \<open>sheets\<close>, never the literal \<open>sheet(s)\<close>.
\<close>

theorem missing_sheets_message:
  assumes "''INPUTS'' \<notin> set (SheetNames wb) \<or> ''OUTPUTS'' \<notin> set (SheetNames wb)"
  shows "parseExcelFile \<lparr>name = n, reading = OnLoad (Returns wb)\<rparr> =
     Resolved \<lparr>filename = n, inputs = [], outputs = [],
       error = Some (
         if ''INPUTS'' \<in> set (SheetNames wb) then
           ''Required sheet not found: OUTPUTS. Sheets in this file: ''
             @ join '', '' (SheetNames wb) @ ''.''
         else if ''OUTPUTS'' \<in> set (SheetNames wb) then
           ''Required sheet not found: INPUTS. Sheets in this file: ''
             @ join '', '' (SheetNames wb) @ ''.''
         else
           ''Required sheets not found: INPUTS and OUTPUTS. Sheets in this file: ''
             @ (if SheetNames wb = [] then ''(no sheets found)''
                else join '', '' (SheetNames wb)) @ ''.'')\<rparr>"
proof -
  have ne: "''INPUTS'' \<in> set (SheetNames wb) \<or> ''OUTPUTS'' \<in> set (SheetNames wb)
     \<Longrightarrow> SheetNames wb \<noteq> []"
    by auto
  show ?thesis
    using assms ne
    by (auto simp add: onload_def tryBlock_def fromWorkbook_def missing_cases)
qed

theorem missing_sheets_message_witness:
  "parseExcelFile \<lparr>name = ''m.xlsx'', reading = OnLoad (Returns
       \<lparr>SheetNames = [''INPUTS''], Sheets = [''INPUTS'' \<mapsto> []]\<rparr>)\<rparr>
   = Resolved \<lparr>filename = ''m.xlsx'', inputs = [], outputs = [],
         error = Some ''Required sheet not found: OUTPUTS. Sheets in this file: INPUTS.''\<rparr>"
  using missing_sheets_message
    [of "\<lparr>SheetNames = [''INPUTS''], Sheets = [''INPUTS'' \<mapsto> []]\<rparr>" "''m.xlsx''"]
  by simp

text \<open>
  C1 as stated fails: for a file with INPUTS present and OUTPUTS absent the message does
  not carry the literal \<open>sheet(s)\<close>.
\<close>

theorem missing_sheets_literal_counterexample:
  "parseExcelFile \<lparr>name = ''m.xlsx'', reading = OnLoad (Returns
       \<lparr>SheetNames = [''INPUTS''], Sheets = [''INPUTS'' \<mapsto> []]\<rparr>)\<rparr>
   \<noteq> Resolved \<lparr>filename = ''m.xlsx'', inputs = [], outputs = [],
         error = Some ''Required sheet(s) not found: OUTPUTS. Sheets in this file: INPUTS.''\<rparr>"
  by (simp add: onload_def tryBlock_def fromWorkbook_def missing_cases)

text \<open>
  C3. Whatever the reader fires and whatever reading the workbook does, the promise of
  \<^const>\<open>parseExcelFile\<close> is resolved, never rejected, with a structure of the four fields
  filename, inputs, outputs and error, the filename being the name of the file.
\<close>

theorem parseExcelFile_always_resolves:
  "\<exists>ins outs err. parseExcelFile f =
      Resolved \<lparr>filename = name f, inputs = ins, outputs = outs, error = err\<rparr>"
proof (cases "reading f")
  case (OnLoad r)
  have "onload (name f) r = \<lparr>filename = name f, inputs = inputs (onload (name f) r),
      outputs = outputs (onload (name f) r), error = error (onload (name f) r)\<rparr>"
    by (rule parse_result.equality) (simp_all add: filename_onload)
  with OnLoad show ?thesis by auto
next
  case OnError
  then show ?thesis by (simp add: onerror_def)
qed

text \<open>
  C4. When both required sheets are present, the promise resolves without error, and the
  inputs (the outputs) are the values of the variable_name column of the INPUTS (the
  OUTPUTS) sheet, trimmed, with the blank ones dropped: in row order (a subsequence of the
  trimmed column) and with every non-blank name occurring as often as in the trimmed
  column.
\<close>

theorem parseExcelFile_variable_names:
  assumes "''INPUTS'' \<in> set (SheetNames wb)" and "''OUTPUTS'' \<in> set (SheetNames wb)"
  shows "\<exists>ins outs. parseExcelFile \<lparr>name = n, reading = OnLoad (Returns wb)\<rparr> =
       Resolved \<lparr>filename = n, inputs = ins, outputs = outs, error = None\<rparr>
     \<and> ins = filter (\<lambda>s. s \<noteq> []) (map trim (column ''variable_name'' (Sheets wb ''INPUTS'')))
     \<and> outs = filter (\<lambda>s. s \<noteq> []) (map trim (column ''variable_name'' (Sheets wb ''OUTPUTS'')))
     \<and> subseq ins (map trim (column ''variable_name'' (Sheets wb ''INPUTS'')))
     \<and> subseq outs (map trim (column ''variable_name'' (Sheets wb ''OUTPUTS'')))
     \<and> (\<forall>s. s \<noteq> [] \<longrightarrow>
          count_list ins s
            = count_list (map trim (column ''variable_name'' (Sheets wb ''INPUTS''))) s
        \<and> count_list outs s
            = count_list (map trim (column ''variable_name'' (Sheets wb ''OUTPUTS''))) s)"
  using assms
  by (simp add: onload_def tryBlock_def fromWorkbook_present readVariableNames_column
      count_list_nonblank)

theorem parseExcelFile_variable_names_witness:
  "parseExcelFile \<lparr>name = ''m.xlsx'', reading = OnLoad (Returns
     \<lparr>SheetNames = [''INPUTS'', ''OUTPUTS''],
      Sheets = [''INPUTS'' \<mapsto> [[(''variable_name'', CellString '' rate '')],
                                 [(''variable_name'', CellString ''  '')],
                                 [(''variable_name'', CellString ''rate'')],
                                 [(''variable_name'', CellOther ''42'')]],
                ''OUTPUTS'' \<mapsto> [[(''unit'', CellString ''eur''),
                                   (''variable_name'', CellString ''net'')]]]\<rparr>)\<rparr>
   = Resolved \<lparr>filename = ''m.xlsx'', inputs = [''rate'', ''rate'', ''42''],
        outputs = [''net''], error = None\<rparr>"
  using parseExcelFile_variable_names
    [of "\<lparr>SheetNames = [''INPUTS'', ''OUTPUTS''],
      Sheets = [''INPUTS'' \<mapsto> [[(''variable_name'', CellString '' rate '')],
                                 [(''variable_name'', CellString ''  '')],
                                 [(''variable_name'', CellString ''rate'')],
                                 [(''variable_name'', CellOther ''42'')]],
                ''OUTPUTS'' \<mapsto> [[(''unit'', CellString ''eur''),
                                   (''variable_name'', CellString ''net'')]]]\<rparr>" "''m.xlsx''"]
  by (simp add: column_def trim_def isWhiteSpace_def)

text \<open>
  C5. An error thrown while the workbook is read gives the message \<open>Could not parse
  file: \<close> followed by the message of the error; a failure of the reader gives \<open>Failed to
  read the file from disk.\<close>; the inputs and the outputs are empty in both cases.
\<close>

theorem parseExcelFile_failure_messages:
  "parseExcelFile \<lparr>name = n, reading = OnLoad (Throws message)\<rparr> =
     Resolved \<lparr>filename = n, inputs = [], outputs = [],
               error = Some (''Could not parse file: '' @ message)\<rparr>
   \<and> parseExcelFile \<lparr>name = n, reading = OnError\<rparr> =
     Resolved \<lparr>filename = n, inputs = [], outputs = [],
               error = Some ''Failed to read the file from disk.''\<rparr>"
  by (simp add: onload_def tryBlock_def onerror_def)

text \<open>
  C10. When both required sheets are present, the promise resolves without error; a
  sheet none of whose rows has a variable_name key contributes the empty list.
\<close>

theorem parseExcelFile_missing_column:
  assumes "''INPUTS'' \<in> set (SheetNames wb)" and "''OUTPUTS'' \<in> set (SheetNames wb)"
  shows "\<exists>ins outs. parseExcelFile \<lparr>name = n, reading = OnLoad (Returns wb)\<rparr> =
       Resolved \<lparr>filename = n, inputs = ins, outputs = outs, error = None\<rparr>
     \<and> ((\<forall>r \<in> set (sheet_to_json (Sheets wb ''INPUTS'')). map_of r ''variable_name'' = None)
          \<longrightarrow> ins = [])
     \<and> ((\<forall>r \<in> set (sheet_to_json (Sheets wb ''OUTPUTS'')). map_of r ''variable_name'' = None)
          \<longrightarrow> outs = [])"
  using assms
  by (simp add: onload_def tryBlock_def fromWorkbook_present readVariableNames_no_column)

theorem parseExcelFile_missing_column_witness:
  "parseExcelFile \<lparr>name = ''m.xlsx'', reading = OnLoad (Returns
     \<lparr>SheetNames = [''INPUTS'', ''OUTPUTS''],
      Sheets = [''INPUTS'' \<mapsto> [[(''name'', CellString ''rate'')],
                                 [(''name'', CellString ''years'')]],
                ''OUTPUTS'' \<mapsto> [[(''variable_name'', CellString ''net'')]]]\<rparr>)\<rparr>
   = Resolved \<lparr>filename = ''m.xlsx'', inputs = [], outputs = [''net''], error = None\<rparr>"
proof -
  let ?wb = "\<lparr>SheetNames = [''INPUTS'', ''OUTPUTS''],
      Sheets = [''INPUTS'' \<mapsto> [[(''name'', CellString ''rate'')],
                                 [(''name'', CellString ''years'')]],
                ''OUTPUTS'' \<mapsto> [[(''variable_name'', CellString ''net'')]]]\<rparr>"
  have nocol: "\<forall>r \<in> set (sheet_to_json (Sheets ?wb ''INPUTS'')).
      map_of r ''variable_name'' = None"
    by simp
  have outs: "readVariableNames (Sheets ?wb ''OUTPUTS'') = [''net'']"
    by (simp add: readVariableNames_def variable_name_of_def trim_def isWhiteSpace_def)
  obtain ins outs where
    r: "parseExcelFile \<lparr>name = ''m.xlsx'', reading = OnLoad (Returns ?wb)\<rparr> =
       Resolved \<lparr>filename = ''m.xlsx'', inputs = ins, outputs = outs, error = None\<rparr>"
    and i: "(\<forall>r \<in> set (sheet_to_json (Sheets ?wb ''INPUTS'')).
        map_of r ''variable_name'' = None) \<longrightarrow> ins = []"
    using parseExcelFile_missing_column [of ?wb "''m.xlsx''"] by auto
  from i nocol have "ins = []" by blast
  moreover from r have "outs = readVariableNames (Sheets ?wb ''OUTPUTS'')"
    by (simp add: onload_def tryBlock_def fromWorkbook_present)
  ultimately show ?thesis
    using r outs by simp
qed

section \<open>Properties of the node and of the canvas\<close>

lemma patchData_ids: "map node_id (patchData ident u nds) = map node_id nds"
  by (induction nds) (simp_all add: patchData_def)

lemma patchData_no_match: "ident \<notin> node_id ` set nds \<Longrightarrow> patchData ident u nds = nds"
  by (induction nds) (auto simp add: patchData_def)

lemma onDrop_is_patch:
  "onDrop ident files nds = nds \<or> (\<exists>u. onDrop ident files nds = patchData ident u nds)"
  by (auto simp add: onDrop_def split: option.split promise.split)

lemma isExcelName_bad: "isExcelName ''bad.xlsx''"
  by code_simp

lemma isExcelName_notes: "\<not> isExcelName ''notes.txt''"
  by code_simp

text \<open>
  C2 (as the code has it). A drop never removes or adds a node. When the drop holds no
  spreadsheet file, the node keeps its label and its ports and only its error changes.
  When the dropped spreadsheet fails to load, the node takes the name of the file as its
  label, its inputs and outputs become empty, and its error is the message of the
  failure; every other node is unchanged.
\<close>

theorem onDrop_error_patch:
  "map node_id (onDrop ident files nds) = map node_id nds
   \<and> (find (\<lambda>f. isExcelName (name f)) files = None \<longrightarrow>
        onDrop ident files nds =
          map (\<lambda>n. if node_id n = ident
                    then n\<lparr>data := (data n)\<lparr>data_error :=
                           Some ''Only .xlsx / .xls files are accepted.''\<rparr>\<rparr>
                    else n) nds)
   \<and> (\<forall>f r e. find (\<lambda>f. isExcelName (name f)) files = Some f
          \<and> parseExcelFile f = Resolved r \<and> error r = Some e \<longrightarrow>
        onDrop ident files nds =
          map (\<lambda>n. if node_id n = ident
                    then n\<lparr>data := (data n)\<lparr>label := name f, data_inputs := [],
                           data_outputs := [], data_error := Some e\<rparr>\<rparr>
                    else n) nds)"
proof (intro conjI allI impI)
  show "map node_id (onDrop ident files nds) = map node_id nds"
    using onDrop_is_patch [of ident files nds] by (auto simp add: patchData_ids)
next
  assume "find (\<lambda>f. isExcelName (name f)) files = None"
  then show "onDrop ident files nds =
          map (\<lambda>n. if node_id n = ident
                    then n\<lparr>data := (data n)\<lparr>data_error :=
                           Some ''Only .xlsx / .xls files are accepted.''\<rparr>\<rparr>
                    else n) nds"
    by (simp add: onDrop_def patchData_def spread_def)
next
  fix f r e
  assume h: "find (\<lambda>f. isExcelName (name f)) files = Some f
          \<and> parseExcelFile f = Resolved r \<and> error r = Some e"
  then have r: "r = \<lparr>filename = name f, inputs = [], outputs = [], error = Some e\<rparr>"
    using parse_error_shape by blast
  have "onDrop ident files nds = patchData ident
                 \<lparr>upd_label = Some (filename r), upd_inputs = Some (inputs r),
                  upd_outputs = Some (outputs r), upd_error = Some (error r)\<rparr> nds"
    using h by (simp add: onDrop_def)
  then show "onDrop ident files nds =
          map (\<lambda>n. if node_id n = ident
                    then n\<lparr>data := (data n)\<lparr>label := name f, data_inputs := [],
                           data_outputs := [], data_error := Some e\<rparr>\<rparr>
                    else n) nds"
    by (simp add: r patchData_def spread_def)
qed

theorem onDrop_error_patch_witness:
  "find (\<lambda>f. isExcelName (name f)) [\<lparr>name = ''notes.txt'', reading = OnError\<rparr>] = None
   \<and> onDrop ''node-3'' [\<lparr>name = ''notes.txt'', reading = OnError\<rparr>] SAMPLE_NODES =
       [SAMPLE_NODES ! 0, SAMPLE_NODES ! 1,
        \<lparr>node_id = ''node-3'', node_type = ''modelNode'',
         position = (520, 340),
         data = \<lparr>label = ''Headcount Model.xlsx'', order = None, data_inputs = [],
                 data_outputs = [''headcount''],
                 data_error = Some ''Only .xlsx / .xls files are accepted.''\<rparr>\<rparr>]
   \<and> find (\<lambda>f. isExcelName (name f))
         [\<lparr>name = ''bad.xlsx'', reading = OnLoad (Throws ''boom'')\<rparr>]
       = Some \<lparr>name = ''bad.xlsx'', reading = OnLoad (Throws ''boom'')\<rparr>
   \<and> parseExcelFile \<lparr>name = ''bad.xlsx'', reading = OnLoad (Throws ''boom'')\<rparr>
       = Resolved \<lparr>filename = ''bad.xlsx'', inputs = [], outputs = [],
                   error = Some ''Could not parse file: boom''\<rparr>
   \<and> onDrop ''node-3'' [\<lparr>name = ''bad.xlsx'', reading = OnLoad (Throws ''boom'')\<rparr>]
         SAMPLE_NODES =
       [SAMPLE_NODES ! 0, SAMPLE_NODES ! 1,
        \<lparr>node_id = ''node-3'', node_type = ''modelNode'',
         position = (520, 340),
         data = \<lparr>label = ''bad.xlsx'', order = None, data_inputs = [],
                 data_outputs = [],
                 data_error = Some ''Could not parse file: boom''\<rparr>\<rparr>]"
proof -
  let ?bad = "\<lparr>name = ''bad.xlsx'', reading = OnLoad (Throws ''boom'')\<rparr>"
  let ?txt = "\<lparr>name = ''notes.txt'', reading = OnError\<rparr>"
  have f1: "find (\<lambda>f. isExcelName (name f)) [?txt] = None"
    by (simp add: isExcelName_notes)
  have f2: "find (\<lambda>f. isExcelName (name f)) [?bad] = Some ?bad"
    by (simp add: isExcelName_bad)
  have p2: "parseExcelFile ?bad = Resolved \<lparr>filename = ''bad.xlsx'', inputs = [],
      outputs = [], error = Some ''Could not parse file: boom''\<rparr>"
    by (simp add: onload_def tryBlock_def)
  have a: "onDrop ''node-3'' [?txt] SAMPLE_NODES =
          map (\<lambda>n. if node_id n = ''node-3''
                    then n\<lparr>data := (data n)\<lparr>data_error :=
                           Some ''Only .xlsx / .xls files are accepted.''\<rparr>\<rparr>
                    else n) SAMPLE_NODES"
    by (rule mp [OF conjunct1 [OF conjunct2
          [OF onDrop_error_patch [of "''node-3''" "[?txt]" SAMPLE_NODES]]] f1])
  have b: "onDrop ''node-3'' [?bad] SAMPLE_NODES =
          map (\<lambda>n. if node_id n = ''node-3''
                    then n\<lparr>data := (data n)\<lparr>label := name ?bad, data_inputs := [],
                           data_outputs := [],
                           data_error := Some ''Could not parse file: boom''\<rparr>\<rparr>
                    else n) SAMPLE_NODES"
  proof -
    note all = conjunct2 [OF conjunct2
        [OF onDrop_error_patch [of "''node-3''" "[?bad]" SAMPLE_NODES]]]
    have e: "error \<lparr>filename = ''bad.xlsx'', inputs = [], outputs = [],
        error = Some ''Could not parse file: boom''\<rparr> = Some ''Could not parse file: boom''"
      by simp
    show ?thesis
      by (rule mp [OF spec [OF spec [OF spec [OF all]]]])
        (rule conjI, rule f2, rule conjI, rule p2, rule e)
  qed
  show ?thesis
    unfolding a b using f1 f2 p2 by (simp add: SAMPLE_NODES_def)
qed

text \<open>
  C2 as stated fails: the first sample node has loaded ports; after a spreadsheet that
  cannot be parsed is dropped on it, its error is set and its inputs are no longer the
  ones it had.
\<close>

theorem onDrop_ports_lost_counterexample:
  "data_error (data (hd (onDrop ''node-1''
       [\<lparr>name = ''bad.xlsx'', reading = OnLoad (Throws ''boom'')\<rparr>] SAMPLE_NODES)))
     = Some ''Could not parse file: boom''
   \<and> data_inputs (data (hd (onDrop ''node-1''
       [\<lparr>name = ''bad.xlsx'', reading = OnLoad (Throws ''boom'')\<rparr>] SAMPLE_NODES)))
     \<noteq> data_inputs (data (hd SAMPLE_NODES))"
  by (simp add: onDrop_def isExcelName_bad onload_def tryBlock_def
      patchData_def spread_def SAMPLE_NODES_def)

text \<open>
  C6. A sheet that declares the name x in two rows gives the port list x, x: both
  occurrences are kept. For that list the component returns two row elements, but both
  carry the same key and both handles the same id, for the inputs and for the outputs
  alike: the two occurrences are not told apart.
\<close>

theorem duplicate_name_rows:
  "readVariableNames (Some [[(''variable_name'', CellString ''x'')],
                            [(''variable_name'', CellString ''x'')]]) = [''x'', ''x'']
   \<and> inputsColumn [''x'', ''x''] =
       PortRows
         [\<lparr>row_key = ''x'',
           row_handle = \<lparr>handle_type = Target, handle_position = Left, handle_id = ''in-x''\<rparr>,
           row_title = ''x'', row_text = ''x''\<rparr>,
          \<lparr>row_key = ''x'',
           row_handle = \<lparr>handle_type = Target, handle_position = Left, handle_id = ''in-x''\<rparr>,
           row_title = ''x'', row_text = ''x''\<rparr>]
   \<and> outputsColumn [''x'', ''x''] =
       PortRows
         [\<lparr>row_key = ''x'',
           row_handle = \<lparr>handle_type = Source, handle_position = Right,
                         handle_id = ''out-x''\<rparr>,
           row_title = ''x'', row_text = ''x''\<rparr>,
          \<lparr>row_key = ''x'',
           row_handle = \<lparr>handle_type = Source, handle_position = Right,
                         handle_id = ''out-x''\<rparr>,
           row_title = ''x'', row_text = ''x''\<rparr>]"
  by (simp add: readVariableNames_def variable_name_of_def trim_def isWhiteSpace_def
      inputsColumn_def outputsColumn_def)

text \<open>
  C7. A connection request with a source and a target, between endpoints not connected
  yet, is appended to the edges as it is, whatever its two handles are named.
\<close>

theorem onConnect_ignores_names:
  assumes "source params \<noteq> []" and "target params \<noteq> []"
    and "\<not> connectionExists params eds"
  shows "onConnect params eds =
     eds @ [\<lparr>source = source params, sourceHandle = sourceHandle params,
              target = target params, targetHandle = targetHandle params,
              edge_id = getEdgeId (source params) (sourceHandle params)
                          (target params) (targetHandle params),
              animated = True, stroke = ''#6366f1''\<rparr>]"
  using assms by (simp add: onConnect_def addEdge_def connectionExists_def Let_def)

theorem onConnect_ignores_names_witness:
  "''out-headcount'' \<noteq> ''in-tax_rate'' \<and>
   onConnect \<lparr>source = ''node-3'', sourceHandle = Some ''out-headcount'',
              target = ''node-1'', targetHandle = Some ''in-tax_rate''\<rparr> SAMPLE_EDGES =
     SAMPLE_EDGES @ [\<lparr>source = ''node-3'', sourceHandle = Some ''out-headcount'',
              target = ''node-1'', targetHandle = Some ''in-tax_rate'',
              edge_id = ''xy-edge__node-3out-headcount-node-1in-tax_rate'',
              animated = True, stroke = ''#6366f1''\<rparr>]"
  using onConnect_ignores_names
    [of "\<lparr>source = ''node-3'', sourceHandle = Some ''out-headcount'',
              target = ''node-1'', targetHandle = Some ''in-tax_rate''\<rparr>" SAMPLE_EDGES]
  by (simp add: connectionExists_def SAMPLE_EDGES_def getEdgeId_def)

text \<open>
  C8. A patch for an id that no node carries leaves the node array as it is, and so does
  the completion of a drop on a node that is gone.
\<close>

theorem patchData_absent_noop:
  assumes "ident \<notin> node_id ` set nds"
  shows "patchData ident u nds = nds \<and> onDrop ident files nds = nds"
  using assms onDrop_is_patch [of ident files nds] by (auto simp add: patchData_no_match)

theorem patchData_absent_noop_witness:
  "''node-9'' \<notin> node_id ` set SAMPLE_NODES
   \<and> patchData ''node-9''
        \<lparr>upd_label = Some ''late.xlsx'', upd_inputs = Some [''a''], upd_outputs = Some [''b''],
         upd_error = Some None\<rparr> SAMPLE_NODES = SAMPLE_NODES
   \<and> onDrop ''node-9'' [\<lparr>name = ''late.xlsx'', reading = OnError\<rparr>] SAMPLE_NODES
       = SAMPLE_NODES"
proof -
  have h: "''node-9'' \<notin> node_id ` set SAMPLE_NODES"
    by (simp add: SAMPLE_NODES_def)
  show ?thesis
    using h patchData_absent_noop [OF h] by simp
qed

section \<open>Properties of the order engine\<close>

lemma map_of_unique:
  assumes "(v, x) \<in> set xs" and "\<And>y. (v, y) \<in> set xs \<Longrightarrow> y = x"
  shows "map_of xs v = Some x"
  using assms
proof (induction xs)
  case Nil
  then show ?case by simp
next
  case (Cons p xs)
  obtain a b where p: "p = (a, b)" by (cases p)
  show ?case
  proof (cases "a = v")
    case True
    with p Cons.prems(2) [of b] show ?thesis by simp
  next
    case False
    with p Cons.prems(1) have "(v, x) \<in> set xs" by simp
    moreover have "\<And>y. (v, y) \<in> set xs \<Longrightarrow> y = x"
      using Cons.prems(2) by simp
    ultimately have "map_of xs v = Some x" by (rule Cons.IH)
    with p False show ?thesis by simp
  qed
qed

lemma readyLayer_subset: "set (readyLayer work todo) \<subseteq> set todo"
  by (auto simp add: readyLayer_def)

lemma inDegree_zero_iff: "inDegree work v = 0 \<longleftrightarrow> (\<forall>s. (s, v) \<notin> set work)"
  by (auto simp add: inDegree_def filter_empty_conv)

lemma not_ready_has_edge:
  assumes "v \<in> set todo" and "v \<notin> set (readyLayer work todo)"
  shows "\<exists>s. (s, v) \<in> set work"
  using assms by (simp add: readyLayer_def inDegree_zero_iff)

lemma ready_no_edge:
  assumes "v \<in> set (readyLayer work todo)"
  shows "(s, v) \<notin> set work"
  using assms by (simp add: readyLayer_def inDegree_zero_iff)

lemma step_work:
  assumes "set work = {(s, t). (s, t) \<in> set E \<and> s \<in> set todo}"
  shows "set (filter (\<lambda>(s, t). s \<notin> L) work)
    = {(s, t). (s, t) \<in> set E \<and> s \<in> set (filter (\<lambda>v. v \<notin> L) todo)}"
proof -
  have "set (filter (\<lambda>(s, t). s \<notin> L) work) = {(s, t). (s, t) \<in> set work \<and> s \<notin> L}"
    by auto
  also have "\<dots> = {(s, t). (s, t) \<in> set E \<and> s \<in> set todo \<and> s \<notin> L}"
    unfolding assms by simp
  also have "\<dots> = {(s, t). (s, t) \<in> set E \<and> s \<in> set (filter (\<lambda>v. v \<notin> L) todo)}"
    by simp
  finally show ?thesis .
qed

lemma in_ranked_step:
  "(v, n) \<in> set (ranked @ map (\<lambda>v. (v, k)) L) \<longleftrightarrow> (v, n) \<in> set ranked \<or> (v \<in> set L \<and> n = k)"
  by auto

lemma layering_sound:
  assumes "layering k todo work ranked = (res, cyc)"
    and "set work = {(s, t). (s, t) \<in> set E \<and> s \<in> set todo}"
    and "\<And>s t. (s, t) \<in> set E \<Longrightarrow> s \<in> set todo \<or> (\<exists>m. (s, m) \<in> set ranked)"
    and "\<And>v n. (v, n) \<in> set ranked \<Longrightarrow> n < k \<and> v \<notin> set todo"
    and "\<And>s t n. (s, t) \<in> set E \<Longrightarrow> (t, n) \<in> set ranked \<Longrightarrow> \<exists>m<n. (s, m) \<in> set ranked"
    and "\<And>v n n'. (v, n) \<in> set ranked \<Longrightarrow> (v, n') \<in> set ranked \<Longrightarrow> n = n'"
  shows "(\<forall>s t n. (s, t) \<in> set E \<longrightarrow> (t, n) \<in> set res \<longrightarrow> (\<exists>m<n. (s, m) \<in> set res))
       \<and> (\<forall>v n n'. (v, n) \<in> set res \<longrightarrow> (v, n') \<in> set res \<longrightarrow> n = n')
       \<and> fst ` set res \<union> set cyc = fst ` set ranked \<union> set todo
       \<and> (\<forall>v \<in> set cyc. \<exists>s. (s, v) \<in> set E \<and> s \<in> set cyc)"
  using assms
proof (induction k todo work ranked rule: layering.induct)
  case (1 k todo work ranked)
  let ?L = "readyLayer work todo"
  show ?case
  proof (cases "?L = []")
    case True
    with "1.prems"(1) have rc: "res = ranked" "cyc = todo"
      by (simp_all add: layering.simps [of k todo work ranked])
    have c: "\<exists>s. (s, v) \<in> set E \<and> s \<in> set todo" if "v \<in> set todo" for v
    proof -
      from that True have "\<exists>s. (s, v) \<in> set work"
        by (intro not_ready_has_edge [of v todo]) simp_all
      then obtain s where "(s, v) \<in> set work" ..
      then have "(s, v) \<in> set E \<and> s \<in> set todo"
        unfolding "1.prems"(2) by simp
      then show ?thesis ..
    qed
    show ?thesis
      unfolding rc
    proof (intro conjI allI impI ballI)
      fix s t n
      assume "(s, t) \<in> set E" "(t, n) \<in> set ranked"
      then show "\<exists>m<n. (s, m) \<in> set ranked" by (rule "1.prems"(5))
    next
      fix v n n'
      assume "(v, n) \<in> set ranked" "(v, n') \<in> set ranked"
      then show "n = n'" by (rule "1.prems"(6))
    next
      show "fst ` set ranked \<union> set todo = fst ` set ranked \<union> set todo" ..
    next
      fix v assume "v \<in> set todo"
      then show "\<exists>s. (s, v) \<in> set E \<and> s \<in> set todo" by (rule c)
    qed
  next
    case False
    let ?todo = "filter (\<lambda>v. v \<notin> set ?L) todo"
    let ?work = "filter (\<lambda>(s, t). s \<notin> set ?L) work"
    let ?ranked = "ranked @ map (\<lambda>v. (v, k)) ?L"
    have sub: "set ?L \<subseteq> set todo"
      by (rule readyLayer_subset)
    from False "1.prems"(1) have step: "layering (Suc k) ?todo ?work ?ranked = (res, cyc)"
      by (simp add: layering.simps [of k todo work ranked])
    have W: "set ?work = {(s, t). (s, t) \<in> set E \<and> s \<in> set ?todo}"
      using "1.prems"(2) by (rule step_work)
    have S: "s \<in> set ?todo \<or> (\<exists>m. (s, m) \<in> set ?ranked)" if "(s, t) \<in> set E" for s t
    proof (cases "s \<in> set ?L")
      case True
      then have "(s, k) \<in> set ?ranked" by (simp add: in_ranked_step)
      then show ?thesis by blast
    next
      case False
      from "1.prems"(3) [OF that] show ?thesis
      proof
        assume "s \<in> set todo"
        with False show ?thesis by simp
      next
        assume "\<exists>m. (s, m) \<in> set ranked"
        then obtain m where "(s, m) \<in> set ranked" ..
        then have "(s, m) \<in> set ?ranked" by (simp add: in_ranked_step)
        then show ?thesis by blast
      qed
    qed
    have B: "n < Suc k \<and> v \<notin> set ?todo" if "(v, n) \<in> set ?ranked" for v n
    proof -
      from that have "(v, n) \<in> set ranked \<or> (v \<in> set ?L \<and> n = k)"
        by (simp only: in_ranked_step)
      then show ?thesis
      proof
        assume "(v, n) \<in> set ranked"
        from "1.prems"(4) [OF this] show ?thesis by simp
      next
        assume "v \<in> set ?L \<and> n = k"
        then show ?thesis by simp
      qed
    qed
    have O: "\<exists>m<n. (s, m) \<in> set ?ranked"
      if e: "(s, t) \<in> set E" and tn: "(t, n) \<in> set ?ranked" for s t n
    proof (cases "(t, n) \<in> set ranked")
      case True
      from "1.prems"(5) [OF e True] obtain m where "m < n" "(s, m) \<in> set ranked" by blast
      then have "m < n \<and> (s, m) \<in> set ?ranked" by (simp add: in_ranked_step)
      then show ?thesis by blast
    next
      case False
      from tn have "(t, n) \<in> set ranked \<or> (t \<in> set ?L \<and> n = k)"
        by (simp only: in_ranked_step)
      with False have t: "t \<in> set ?L" and n: "n = k"
        by blast+
      from t have "(s, t) \<notin> set work"
        by (rule ready_no_edge)
      with e have "s \<notin> set todo"
        unfolding "1.prems"(2) by simp
      with "1.prems"(3) [OF e] obtain m where m: "(s, m) \<in> set ranked" by blast
      from "1.prems"(4) [OF m] have "m < k" by simp
      with m n have "m < n \<and> (s, m) \<in> set ?ranked" by (simp add: in_ranked_step)
      then show ?thesis by blast
    qed
    have U: "n = n'" if a: "(v, n) \<in> set ?ranked" and b: "(v, n') \<in> set ?ranked" for v n n'
    proof -
      from a have a': "(v, n) \<in> set ranked \<or> (v \<in> set ?L \<and> n = k)"
        by (simp only: in_ranked_step)
      from b have b': "(v, n') \<in> set ranked \<or> (v \<in> set ?L \<and> n' = k)"
        by (simp only: in_ranked_step)
      have old: "v \<notin> set ?L" if "(v, x) \<in> set ranked" for x
        using "1.prems"(4) [OF that] sub by blast
      from a' b' show ?thesis
      proof (elim disjE conjE)
        assume "(v, n) \<in> set ranked" "(v, n') \<in> set ranked"
        then show ?thesis by (rule "1.prems"(6))
      next
        assume "(v, n) \<in> set ranked" "v \<in> set ?L"
        with old show ?thesis by blast
      next
        assume "v \<in> set ?L" "(v, n') \<in> set ranked"
        with old show ?thesis by blast
      next
        assume "n = k" "n' = k"
        then show ?thesis by simp
      qed
    qed
    have IH: "(\<forall>s t n. (s, t) \<in> set E \<longrightarrow> (t, n) \<in> set res \<longrightarrow> (\<exists>m<n. (s, m) \<in> set res))
       \<and> (\<forall>v n n'. (v, n) \<in> set res \<longrightarrow> (v, n') \<in> set res \<longrightarrow> n = n')
       \<and> fst ` set res \<union> set cyc = fst ` set ?ranked \<union> set ?todo
       \<and> (\<forall>v \<in> set cyc. \<exists>s. (s, v) \<in> set E \<and> s \<in> set cyc)"
      by (rule "1.IH" [OF False step W S B O U])
    have dom: "fst ` set ?ranked \<union> set ?todo = fst ` set ranked \<union> set todo"
    proof -
      have "fst ` set ?ranked = fst ` set ranked \<union> set ?L"
        by (simp add: image_Un image_image)
      moreover have "set ?todo = set todo - set ?L"
        by auto
      ultimately show ?thesis
        using sub by blast
    qed
    from IH show ?thesis
      unfolding dom .
  qed
qed

lemma layering_minimal:
  assumes "layering k todo work ranked = (res, cyc)"
    and "\<And>s t. (s, t) \<in> set work \<Longrightarrow> (s, t) \<in> set E \<and> s \<in> set todo"
    and "\<And>s t. (s, t) \<in> set E \<Longrightarrow> r s < r t"
    and "\<And>v. v \<in> set todo \<Longrightarrow> k \<le> r v"
    and "\<And>v n. (v, n) \<in> set ranked \<Longrightarrow> n \<le> r v"
    and "(v, n) \<in> set res"
  shows "n \<le> (r v :: nat)"
  using assms
proof (induction k todo work ranked rule: layering.induct)
  case (1 k todo work ranked)
  let ?L = "readyLayer work todo"
  show ?case
  proof (cases "?L = []")
    case True
    with "1.prems"(1,6) have "(v, n) \<in> set ranked"
      by (simp add: layering.simps [of k todo work ranked])
    then show ?thesis by (rule "1.prems"(5))
  next
    case False
    let ?todo = "filter (\<lambda>v. v \<notin> set ?L) todo"
    let ?work = "filter (\<lambda>(s, t). s \<notin> set ?L) work"
    let ?ranked = "ranked @ map (\<lambda>v. (v, k)) ?L"
    have sub: "set ?L \<subseteq> set todo"
      by (rule readyLayer_subset)
    from False "1.prems"(1) have step: "layering (Suc k) ?todo ?work ?ranked = (res, cyc)"
      by (simp add: layering.simps [of k todo work ranked])
    have W: "(s, t) \<in> set E \<and> s \<in> set ?todo" if "(s, t) \<in> set ?work" for s t
    proof -
      from that have "(s, t) \<in> set work" "s \<notin> set ?L" by simp_all
      with "1.prems"(2) [of s t] show ?thesis by simp
    qed
    have T: "Suc k \<le> r u" if "u \<in> set ?todo" for u
    proof -
      from that have u: "u \<in> set todo" "u \<notin> set ?L" by simp_all
      from not_ready_has_edge [OF u] obtain s where s: "(s, u) \<in> set work" ..
      from "1.prems"(2) [OF s] have "(s, u) \<in> set E" "s \<in> set todo" by simp_all
      with "1.prems"(3) [of s u] "1.prems"(4) [of s] have "k \<le> r s" "r s < r u" by simp_all
      then show "Suc k \<le> r u" by simp
    qed
    have M: "m \<le> r u" if "(u, m) \<in> set ?ranked" for u m
    proof -
      from that have "(u, m) \<in> set ranked \<or> (u \<in> set ?L \<and> m = k)"
        by (simp only: in_ranked_step)
      then show ?thesis
      proof
        assume "(u, m) \<in> set ranked"
        then show ?thesis by (rule "1.prems"(5))
      next
        assume "u \<in> set ?L \<and> m = k"
        with sub "1.prems"(4) [of u] show ?thesis by blast
      qed
    qed
    show ?thesis
      by (rule "1.IH" [OF False step W "1.prems"(3) T M "1.prems"(6)])
  qed
qed

lemma acyclic_no_cyclic:
  assumes "acyclic (set E)"
    and "\<forall>v \<in> set cyc. \<exists>s. (s, v) \<in> set E \<and> s \<in> set cyc"
  shows "cyc = []"
proof (rule ccontr)
  assume "cyc \<noteq> []"
  then obtain x where x: "x \<in> set cyc"
    by (cases cyc) auto
  have "wf (set E)"
    using assms(1) by (intro finite_acyclic_wf) simp_all
  from wfE_min [OF this x] obtain z where "z \<in> set cyc" "\<And>y. (y, z) \<in> set E \<Longrightarrow> y \<notin> set cyc"
    by blast
  with assms(2) show False by blast
qed


lemma map_of_const:
  assumes "v \<in> set xs"
  shows "map_of (map (\<lambda>v. (v, c)) xs) v = Some c"
proof (rule map_of_unique)
  from assms show "(v, c) \<in> set (map (\<lambda>v. (v, c)) xs)" by simp
next
  fix y assume "(v, y) \<in> set (map (\<lambda>v. (v, c)) xs)"
  then show "y = c" by auto
qed

lemma map_of_const_None:
  assumes "v \<notin> set xs"
  shows "map_of (map (\<lambda>v. (v, c)) xs) v = None"
  using assms by (simp add: map_of_eq_None_iff image_image)

lemma computeRanks_layering:
  assumes "layering 0 (remainingNodes g) (remainingEdges g) [] = (res, cyc)"
  shows "computeRanks g v =
    (case map_of (map (\<lambda>v. (v, Unorderable DegradedInput)) (degradedNodes g)) v of
       Some x \<Rightarrow> Some x
     | None \<Rightarrow>
        (case map_of (map (\<lambda>(v, k). (v, Ranked k)) res) v of
           Some x \<Rightarrow> Some x
         | None \<Rightarrow> map_of (map (\<lambda>v. (v, Unorderable Cyclic)) cyc) v))"
  by (simp add: computeRanks_def assms map_add_def split: option.split)

lemma layering_facts:
  assumes "layering 0 (remainingNodes g) (remainingEdges g) [] = (res, cyc)"
  shows "(\<forall>s t n. (s, t) \<in> set (remainingEdges g) \<longrightarrow> (t, n) \<in> set res
            \<longrightarrow> (\<exists>m<n. (s, m) \<in> set res))
       \<and> (\<forall>v n n'. (v, n) \<in> set res \<longrightarrow> (v, n') \<in> set res \<longrightarrow> n = n')
       \<and> fst ` set res \<union> set cyc = set (remainingNodes g)
       \<and> (\<forall>v \<in> set cyc. \<exists>s. (s, v) \<in> set (remainingEdges g) \<and> s \<in> set cyc)"
proof -
  have W: "set (remainingEdges g) =
      {(s, t). (s, t) \<in> set (remainingEdges g) \<and> s \<in> set (remainingNodes g)}"
    by (auto simp add: remainingEdges_def)
  have S: "s \<in> set (remainingNodes g) \<or> (\<exists>m. (s, m) \<in> set ([] :: (string \<times> nat) list))"
    if "(s, t) \<in> set (remainingEdges g)" for s t
    using that by (simp add: remainingEdges_def)
  have "(\<forall>s t n. (s, t) \<in> set (remainingEdges g) \<longrightarrow> (t, n) \<in> set res
            \<longrightarrow> (\<exists>m<n. (s, m) \<in> set res))
       \<and> (\<forall>v n n'. (v, n) \<in> set res \<longrightarrow> (v, n') \<in> set res \<longrightarrow> n = n')
       \<and> fst ` set res \<union> set cyc
          = fst ` set ([] :: (string \<times> nat) list) \<union> set (remainingNodes g)
       \<and> (\<forall>v \<in> set cyc. \<exists>s. (s, v) \<in> set (remainingEdges g) \<and> s \<in> set cyc)"
    by (rule layering_sound [OF assms W S]) simp_all
  then show ?thesis by simp
qed

lemma ranked_D:
  assumes "layering 0 (remainingNodes g) (remainingEdges g) [] = (res, cyc)"
    and "computeRanks g v = Some (Ranked n)"
  shows "(v, n) \<in> set res"
proof -
  let ?A = "map (\<lambda>v. (v, Unorderable DegradedInput)) (degradedNodes g)"
  let ?B = "map (\<lambda>(v, k). (v, Ranked k)) res"
  let ?C = "map (\<lambda>v. (v, Unorderable Cyclic)) cyc"
  from assms(2) have "map_of (?A @ ?B @ ?C) v = Some (Ranked n)"
    by (simp add: computeRanks_def assms(1))
  then have "(v, Ranked n) \<in> set (?A @ ?B @ ?C)"
    by (rule map_of_SomeD)
  then have "(v, Ranked n) \<in> set ?A \<or> (v, Ranked n) \<in> set ?B \<or> (v, Ranked n) \<in> set ?C"
    by simp
  moreover have "(v, Ranked n) \<notin> set ?A" by auto
  moreover have "(v, Ranked n) \<notin> set ?C" by auto
  ultimately have "(v, Ranked n) \<in> set ?B" by blast
  then show ?thesis by auto
qed

lemma cyclic_D:
  assumes "layering 0 (remainingNodes g) (remainingEdges g) [] = (res, cyc)"
    and "computeRanks g v = Some (Unorderable Cyclic)"
  shows "v \<in> set cyc"
proof -
  let ?A = "map (\<lambda>v. (v, Unorderable DegradedInput)) (degradedNodes g)"
  let ?B = "map (\<lambda>(v, k). (v, Ranked k)) res"
  let ?C = "map (\<lambda>v. (v, Unorderable Cyclic)) cyc"
  from assms(2) have "map_of (?A @ ?B @ ?C) v = Some (Unorderable Cyclic)"
    by (simp add: computeRanks_def assms(1))
  then have "(v, Unorderable Cyclic) \<in> set (?A @ ?B @ ?C)"
    by (rule map_of_SomeD)
  then have "(v, Unorderable Cyclic) \<in> set ?A \<or> (v, Unorderable Cyclic) \<in> set ?B
      \<or> (v, Unorderable Cyclic) \<in> set ?C"
    by simp
  moreover have "(v, Unorderable Cyclic) \<notin> set ?A" by auto
  moreover have "(v, Unorderable Cyclic) \<notin> set ?B" by auto
  ultimately have "(v, Unorderable Cyclic) \<in> set ?C" by blast
  then show ?thesis by auto
qed

lemma ranked_I:
  assumes L: "layering 0 (remainingNodes g) (remainingEdges g) [] = (res, cyc)"
    and vn: "(v, n) \<in> set res"
  shows "computeRanks g v = Some (Ranked n)"
proof -
  note F = layering_facts [OF L]
  from F have dom: "fst ` set res \<union> set cyc = set (remainingNodes g)"
    by (rule conjunct1 [OF conjunct2 [OF conjunct2]])
  from F have uniq: "\<forall>v n n'. (v, n) \<in> set res \<longrightarrow> (v, n') \<in> set res \<longrightarrow> n = n'"
    by (rule conjunct1 [OF conjunct2])
  from vn have "v \<in> fst ` set res" by force
  with dom have "v \<in> set (remainingNodes g)" by auto
  then have "v \<notin> set (degradedNodes g)"
    by (simp add: remainingNodes_def)
  then have A: "map_of (map (\<lambda>v. (v, Unorderable DegradedInput)) (degradedNodes g)) v = None"
    by (rule map_of_const_None)
  have B: "map_of (map (\<lambda>(v, k). (v, Ranked k)) res) v = Some (Ranked n)"
  proof (rule map_of_unique)
    from vn show "(v, Ranked n) \<in> set (map (\<lambda>(v, k). (v, Ranked k)) res)" by force
  next
    fix y assume "(v, y) \<in> set (map (\<lambda>(v, k). (v, Ranked k)) res)"
    then obtain n' where "(v, n') \<in> set res" "y = Ranked n'" by auto
    with uniq vn show "y = Ranked n" by blast
  qed
  show ?thesis
    by (simp add: computeRanks_layering [OF L] A B)
qed

lemma degraded_I:
  assumes L: "layering 0 (remainingNodes g) (remainingEdges g) [] = (res, cyc)"
    and v: "v \<in> set (degradedNodes g)"
  shows "computeRanks g v = Some (Unorderable DegradedInput)"
  by (simp add: computeRanks_layering [OF L] map_of_const [OF v])

lemma remainingEdges_subset: "set (remainingEdges g) \<subseteq> set (deps g)"
  by (auto simp add: remainingEdges_def)

lemma remainingEdges_I:
  "(s, t) \<in> set (deps g) \<Longrightarrow> s \<in> set (remainingNodes g) \<Longrightarrow> t \<in> set (remainingNodes g)
     \<Longrightarrow> (s, t) \<in> set (remainingEdges g)"
  by (simp add: remainingEdges_def)

lemma remainingEdges_D:
  "(s, t) \<in> set (remainingEdges g) \<Longrightarrow>
     (s, t) \<in> set (deps g) \<and> s \<in> set (remainingNodes g) \<and> t \<in> set (remainingNodes g)"
  by (simp add: remainingEdges_def)

lemma node_cases:
  "v \<in> set (map nid (nodes g)) \<Longrightarrow> v \<in> set (degradedNodes g) \<or> v \<in> set (remainingNodes g)"
  by (simp add: remainingNodes_def)

lemma deps_edge: "e \<in> set (edges g) \<Longrightarrow> (nodeId (edgeSource e), nodeId (edgeTarget e)) \<in> set (deps g)"
  by (simp add: deps_def)

lemma dependentsOf_iff:
  "v \<in> set (dependentsOf es marked rest)
     \<longleftrightarrow> v \<in> set rest \<and> (\<exists>s. (s, v) \<in> set es \<and> s \<in> set marked)"
  by (auto simp add: dependentsOf_def list_ex_iff)

lemma degradedClosure_closed:
  assumes "(s, t) \<in> set es" and "s \<in> set (degradedClosure es marked rest)"
    and "t \<in> set marked \<union> set rest"
  shows "t \<in> set (degradedClosure es marked rest)"
  using assms
proof (induction es marked rest rule: degradedClosure.induct)
  case (1 es marked rest)
  let ?D = "dependentsOf es marked rest"
  show ?case
  proof (cases "?D = []")
    case True
    then have res: "degradedClosure es marked rest = marked"
      by (simp add: degradedClosure.simps [of es marked rest])
    with "1.prems"(2) have s: "s \<in> set marked" by simp
    have "t \<notin> set rest"
    proof
      assume "t \<in> set rest"
      with "1.prems"(1) s have "t \<in> set ?D"
        unfolding dependentsOf_iff by blast
      with True show False by simp
    qed
    with "1.prems"(3) show ?thesis
      unfolding res by simp
  next
    case False
    let ?rest = "filter (\<lambda>v. v \<notin> set ?D) rest"
    from False have res: "degradedClosure es marked rest = degradedClosure es (marked @ ?D) ?rest"
      by (simp add: degradedClosure.simps [of es marked rest])
    have sub: "set ?D \<subseteq> set rest"
      by (auto simp add: dependentsOf_def)
    from "1.prems"(2) have s: "s \<in> set (degradedClosure es (marked @ ?D) ?rest)"
      unfolding res .
    from "1.prems"(3) sub have t: "t \<in> set (marked @ ?D) \<union> set ?rest"
      by auto
    show ?thesis
      unfolding res by (rule "1.IH" [OF False "1.prems"(1) s t])
  qed
qed

lemma node_ids_split:
  "set (map nid (nodes g))
     = set (map nid (filter (\<lambda>n. loadError n \<noteq> None) (nodes g)))
       \<union> set (map nid (filter (\<lambda>n. loadError n = None) (nodes g)))"
proof -
  have "set (nodes g) = set (filter (\<lambda>n. loadError n \<noteq> None) (nodes g))
      \<union> set (filter (\<lambda>n. loadError n = None) (nodes g))"
    by auto
  then have "nid ` set (nodes g) = nid ` (set (filter (\<lambda>n. loadError n \<noteq> None) (nodes g))
      \<union> set (filter (\<lambda>n. loadError n = None) (nodes g)))"
    by (rule arg_cong)
  then show ?thesis
    by (simp only: set_map image_Un)
qed

lemma degraded_propagates:
  assumes "(s, t) \<in> set (deps g)" and "s \<in> set (degradedNodes g)"
    and "t \<in> set (map nid (nodes g))"
  shows "t \<in> set (degradedNodes g)"
proof -
  from assms(3) have "t \<in> set (map nid (filter (\<lambda>n. loadError n \<noteq> None) (nodes g)))
       \<union> set (map nid (filter (\<lambda>n. loadError n = None) (nodes g)))"
    unfolding node_ids_split [symmetric] .
  with assms(1,2) show ?thesis
    unfolding degradedNodes_def by (rule degradedClosure_closed)
qed

lemma remaining_D:
  "v \<in> set (remainingNodes g) \<Longrightarrow> v \<notin> set (degradedNodes g) \<and> v \<in> set (map nid (nodes g))"
  by (simp add: remainingNodes_def)

lemma degradedClosure_marked:
  "m \<in> set marked \<Longrightarrow> m \<in> set (degradedClosure es marked rest)"
proof (induction es marked rest rule: degradedClosure.induct)
  case (1 es marked rest)
  let ?D = "dependentsOf es marked rest"
  show ?case
  proof (cases "?D = []")
    case True
    with "1.prems" show ?thesis
      by (simp add: degradedClosure.simps [of es marked rest])
  next
    case False
    from "1.prems" have "m \<in> set (marked @ ?D)" by simp
    with False "1.IH" show ?thesis
      by (simp add: degradedClosure.simps [of es marked rest])
  qed
qed

lemma degradedClosure_sound:
  assumes "v \<in> set (degradedClosure es marked rest)"
    and "\<And>m. m \<in> set marked \<Longrightarrow> \<exists>u \<in> U. (u, m) \<in> R\<^sup>*"
    and "\<And>s t. (s, t) \<in> set es \<Longrightarrow> t \<in> set rest \<Longrightarrow> (s, t) \<in> R"
  shows "\<exists>u \<in> U. (u, v) \<in> R\<^sup>*"
  using assms
proof (induction es marked rest rule: degradedClosure.induct)
  case (1 es marked rest)
  let ?D = "dependentsOf es marked rest"
  show ?case
  proof (cases "?D = []")
    case True
    with "1.prems"(1) have "v \<in> set marked"
      by (simp add: degradedClosure.simps [of es marked rest])
    then show ?thesis by (rule "1.prems"(2))
  next
    case False
    let ?rest = "filter (\<lambda>v. v \<notin> set ?D) rest"
    from False "1.prems"(1) have v: "v \<in> set (degradedClosure es (marked @ ?D) ?rest)"
      by (simp add: degradedClosure.simps [of es marked rest])
    have M: "\<exists>u \<in> U. (u, m) \<in> R\<^sup>*" if "m \<in> set (marked @ ?D)" for m
    proof (cases "m \<in> set marked")
      case True
      then show ?thesis by (rule "1.prems"(2))
    next
      case False
      with that have "m \<in> set ?D" by simp
      then obtain s where m: "m \<in> set rest" and e: "(s, m) \<in> set es" and s: "s \<in> set marked"
        unfolding dependentsOf_iff by blast
      from "1.prems"(2) [OF s] obtain u where u: "u \<in> U" "(u, s) \<in> R\<^sup>*" by blast
      from "1.prems"(3) [OF e m] have "(s, m) \<in> R" .
      with u(2) have "(u, m) \<in> R\<^sup>*" by (rule rtrancl_into_rtrancl)
      with u(1) show ?thesis by blast
    qed
    have E: "(s, t) \<in> R" if "(s, t) \<in> set es" and "t \<in> set ?rest" for s t
    proof -
      from that(2) have "t \<in> set rest" by simp
      with that(1) show ?thesis by (rule "1.prems"(3))
    qed
    show ?thesis
      by (rule "1.IH" [OF False v M E])
  qed
qed

lemma degraded_iff: "v \<in> set (degradedNodes g) \<longleftrightarrow> dependsOnError g v"
proof
  let ?errs = "map nid (filter (\<lambda>n. loadError n \<noteq> None) (nodes g))"
  let ?rest = "map nid (filter (\<lambda>n. loadError n = None) (nodes g))"
  let ?R = "{(s, t). (s, t) \<in> set (deps g) \<and> t \<in> set (map nid (nodes g))}"
  assume "v \<in> set (degradedNodes g)"
  then have v: "v \<in> set (degradedClosure (deps g) ?errs ?rest)"
    by (simp only: degradedNodes_def)
  have M: "\<exists>u \<in> set ?errs. (u, m) \<in> ?R\<^sup>*" if "m \<in> set ?errs" for m
    using that by blast
  have E: "(s, t) \<in> ?R" if "(s, t) \<in> set (deps g)" and "t \<in> set ?rest" for s t
  proof -
    from that(2) have "t \<in> set (map nid (nodes g))"
      unfolding node_ids_split [of g] by (rule UnI2)
    with that(1) show ?thesis by simp
  qed
  from degradedClosure_sound [OF v M E] show "dependsOnError g v"
    by (simp only: dependsOnError_def)
next
  let ?errs = "map nid (filter (\<lambda>n. loadError n \<noteq> None) (nodes g))"
  let ?R = "{(s, t). (s, t) \<in> set (deps g) \<and> t \<in> set (map nid (nodes g))}"
  assume "dependsOnError g v"
  then obtain u where u: "u \<in> set ?errs" and p: "(u, v) \<in> ?R\<^sup>*"
    unfolding dependsOnError_def by blast
  from p show "v \<in> set (degradedNodes g)"
  proof (induction rule: rtrancl_induct)
    case base
    from u show ?case
      unfolding degradedNodes_def by (rule degradedClosure_marked)
  next
    case (step a b)
    from step.hyps(2) have "(a, b) \<in> set (deps g)" "b \<in> set (map nid (nodes g))"
      by simp_all
    with step.IH show ?case
      using degraded_propagates by blast
  qed
qed


lemma no_error_no_dependsOnError:
  assumes "\<forall>n \<in> set (nodes g). loadError n = None"
  shows "\<not> dependsOnError g v"
proof -
  from assms have "filter (\<lambda>n. loadError n \<noteq> None) (nodes g) = []"
    by (simp add: filter_empty_conv)
  then show ?thesis
    by (simp add: dependsOnError_def)
qed

text \<open>
  C9. In a graph whose edges form no cycle, every node is given a result: it is degraded
  when it has a load error or depends, through edges, on a node that has one, and it is
  ranked otherwise; in particular every node of a graph without load errors is ranked.
  On every edge between nodes of the graph whose target does not depend on an error,
  both ends are ranked and the rank of the target is above the rank of the source. The
  ranks are the least possible: any numbering of the nodes that increases along every
  edge between ranked nodes is at least the rank at every ranked node.
\<close>

theorem computeRanks_acyclic:
  assumes "acyclic (set (deps g))"
  shows "(\<forall>v \<in> set (map nid (nodes g)).
            (dependsOnError g v \<and> computeRanks g v = Some (Unorderable DegradedInput))
            \<or> (\<not> dependsOnError g v \<and> (\<exists>n. computeRanks g v = Some (Ranked n))))
       \<and> ((\<forall>n \<in> set (nodes g). loadError n = None)
            \<longrightarrow> (\<forall>v \<in> set (map nid (nodes g)). \<exists>k. computeRanks g v = Some (Ranked k)))
       \<and> (\<forall>e \<in> set (edges g).
            nodeId (edgeSource e) \<in> set (map nid (nodes g))
            \<and> nodeId (edgeTarget e) \<in> set (map nid (nodes g))
            \<and> \<not> dependsOnError g (nodeId (edgeTarget e))
            \<longrightarrow> (\<exists>m n. computeRanks g (nodeId (edgeSource e)) = Some (Ranked m)
                   \<and> computeRanks g (nodeId (edgeTarget e)) = Some (Ranked n) \<and> m < n))
       \<and> (\<forall>e \<in> set (edges g). \<forall>m n.
            computeRanks g (nodeId (edgeSource e)) = Some (Ranked m)
            \<and> computeRanks g (nodeId (edgeTarget e)) = Some (Ranked n) \<longrightarrow> m < n)
       \<and> (\<forall>e \<in> set (edges g). \<forall>n.
            nodeId (edgeSource e) \<in> set (map nid (nodes g))
            \<and> computeRanks g (nodeId (edgeTarget e)) = Some (Ranked n)
            \<longrightarrow> (\<exists>m<n. computeRanks g (nodeId (edgeSource e)) = Some (Ranked m)))
       \<and> (\<forall>r :: string \<Rightarrow> nat.
            (\<forall>e \<in> set (edges g). \<forall>m n.
                computeRanks g (nodeId (edgeSource e)) = Some (Ranked m)
                \<and> computeRanks g (nodeId (edgeTarget e)) = Some (Ranked n)
                \<longrightarrow> r (nodeId (edgeSource e)) < r (nodeId (edgeTarget e)))
            \<longrightarrow> (\<forall>v n. computeRanks g v = Some (Ranked n) \<longrightarrow> n \<le> r v))"
proof -
  obtain res cyc where L: "layering 0 (remainingNodes g) (remainingEdges g) [] = (res, cyc)"
    by (cases "layering 0 (remainingNodes g) (remainingEdges g) []")
  note F = layering_facts [OF L]
  from F have order: "\<And>s t n. (s, t) \<in> set (remainingEdges g) \<Longrightarrow> (t, n) \<in> set res
      \<Longrightarrow> \<exists>m<n. (s, m) \<in> set res"
    by blast
  from F have uniq: "\<And>v n n'. (v, n) \<in> set res \<Longrightarrow> (v, n') \<in> set res \<Longrightarrow> n = n'"
    by blast
  from F have dom: "fst ` set res \<union> set cyc = set (remainingNodes g)"
    by (rule conjunct1 [OF conjunct2 [OF conjunct2]])
  from F have closed: "\<forall>v \<in> set cyc. \<exists>s. (s, v) \<in> set (remainingEdges g) \<and> s \<in> set cyc"
    by (rule conjunct2 [OF conjunct2 [OF conjunct2]])
  have "acyclic (set (remainingEdges g))"
    using assms remainingEdges_subset by (rule acyclic_subset)
  then have cyc: "cyc = []"
    using closed by (rule acyclic_no_cyclic)
  have rem: "v \<in> set (remainingNodes g) \<longleftrightarrow> (\<exists>n. (v, n) \<in> set res)" for v
  proof -
    from dom cyc have "set (remainingNodes g) = fst ` set res" by simp
    then show ?thesis by force
  qed
  have edge_order: "m < n"
    if e: "(s, t) \<in> set (deps g)" and rs: "computeRanks g s = Some (Ranked m)"
      and rt: "computeRanks g t = Some (Ranked n)" for s t m n
  proof -
    from rs have sm: "(s, m) \<in> set res" by (rule ranked_D [OF L])
    from rt have tn: "(t, n) \<in> set res" by (rule ranked_D [OF L])
    from sm tn have "s \<in> set (remainingNodes g)" "t \<in> set (remainingNodes g)"
      unfolding rem by blast+
    with e have "(s, t) \<in> set (remainingEdges g)" by (rule remainingEdges_I)
    from order [OF this tn] obtain m' where "m' < n" "(s, m') \<in> set res" by blast
    with uniq [OF sm] show "m < n" by blast
  qed
  have part1: "\<forall>e \<in> set (edges g). \<forall>m n.
            computeRanks g (nodeId (edgeSource e)) = Some (Ranked m)
            \<and> computeRanks g (nodeId (edgeTarget e)) = Some (Ranked n) \<longrightarrow> m < n"
  proof (intro ballI allI impI, elim conjE)
    fix e m n
    assume "e \<in> set (edges g)"
      and "computeRanks g (nodeId (edgeSource e)) = Some (Ranked m)"
      and "computeRanks g (nodeId (edgeTarget e)) = Some (Ranked n)"
    then show "m < n"
      using edge_order deps_edge by blast
  qed
  have part1b: "\<forall>e \<in> set (edges g). \<forall>n.
            nodeId (edgeSource e) \<in> set (map nid (nodes g))
            \<and> computeRanks g (nodeId (edgeTarget e)) = Some (Ranked n)
            \<longrightarrow> (\<exists>m<n. computeRanks g (nodeId (edgeSource e)) = Some (Ranked m))"
  proof (intro ballI allI impI, elim conjE)
    fix e :: graph_edge and n
    let ?s = "nodeId (edgeSource e)" and ?t = "nodeId (edgeTarget e)"
    assume e: "e \<in> set (edges g)" and s: "?s \<in> set (map nid (nodes g))"
      and rt: "computeRanks g ?t = Some (Ranked n)"
    from e have d: "(?s, ?t) \<in> set (deps g)" by (rule deps_edge)
    from rt have tn: "(?t, n) \<in> set res" by (rule ranked_D [OF L])
    then have t: "?t \<in> set (remainingNodes g)" unfolding rem by blast
    from remaining_D [OF t] have t': "?t \<notin> set (degradedNodes g)"
      "?t \<in> set (map nid (nodes g))" by simp_all
    have "?s \<notin> set (degradedNodes g)"
    proof
      assume "?s \<in> set (degradedNodes g)"
      with d have "?t \<in> set (degradedNodes g)"
        using t'(2) by (rule degraded_propagates)
      with t'(1) show False ..
    qed
    with node_cases [OF s] have "?s \<in> set (remainingNodes g)" by blast
    with d have "(?s, ?t) \<in> set (remainingEdges g)"
      using t by (rule remainingEdges_I)
    from order [OF this tn] obtain m where m: "m < n" "(?s, m) \<in> set res" by blast
    from m(2) have "computeRanks g ?s = Some (Ranked m)" by (rule ranked_I [OF L])
    with m(1) show "\<exists>m<n. computeRanks g ?s = Some (Ranked m)" by blast
  qed
  have part0: "\<forall>v \<in> set (map nid (nodes g)).
            (dependsOnError g v \<and> computeRanks g v = Some (Unorderable DegradedInput))
            \<or> (\<not> dependsOnError g v \<and> (\<exists>n. computeRanks g v = Some (Ranked n)))"
  proof
    fix v assume "v \<in> set (map nid (nodes g))"
    then have "v \<in> set (degradedNodes g) \<or> v \<in> set (remainingNodes g)"
      by (rule node_cases)
    then show "(dependsOnError g v \<and> computeRanks g v = Some (Unorderable DegradedInput))
            \<or> (\<not> dependsOnError g v \<and> (\<exists>n. computeRanks g v = Some (Ranked n)))"
    proof
      assume d: "v \<in> set (degradedNodes g)"
      then have "computeRanks g v = Some (Unorderable DegradedInput)"
        by (rule degraded_I [OF L])
      moreover from d have "dependsOnError g v"
        unfolding degraded_iff .
      ultimately show ?thesis by blast
    next
      assume r: "v \<in> set (remainingNodes g)"
      then obtain n where "(v, n) \<in> set res" unfolding rem ..
      then have "computeRanks g v = Some (Ranked n)" by (rule ranked_I [OF L])
      moreover from remaining_D [OF r] have "\<not> dependsOnError g v"
        unfolding degraded_iff [symmetric] by simp
      ultimately show ?thesis by blast
    qed
  qed
  have ranked_if: "\<exists>n. computeRanks g v = Some (Ranked n)"
    if "v \<in> set (map nid (nodes g))" and "\<not> dependsOnError g v" for v
    using part0 that by blast
  have part0b: "(\<forall>n \<in> set (nodes g). loadError n = None)
            \<longrightarrow> (\<forall>v \<in> set (map nid (nodes g)). \<exists>k. computeRanks g v = Some (Ranked k))"
  proof (intro impI ballI)
    fix v
    assume "\<forall>n \<in> set (nodes g). loadError n = None"
    then have "\<not> dependsOnError g v" by (rule no_error_no_dependsOnError)
    moreover assume "v \<in> set (map nid (nodes g))"
    ultimately show "\<exists>k. computeRanks g v = Some (Ranked k)"
      using ranked_if by blast
  qed
  have part0c: "\<forall>e \<in> set (edges g).
            nodeId (edgeSource e) \<in> set (map nid (nodes g))
            \<and> nodeId (edgeTarget e) \<in> set (map nid (nodes g))
            \<and> \<not> dependsOnError g (nodeId (edgeTarget e))
            \<longrightarrow> (\<exists>m n. computeRanks g (nodeId (edgeSource e)) = Some (Ranked m)
                   \<and> computeRanks g (nodeId (edgeTarget e)) = Some (Ranked n) \<and> m < n)"
  proof (intro ballI impI, elim conjE)
    fix e :: graph_edge
    let ?s = "nodeId (edgeSource e)" and ?t = "nodeId (edgeTarget e)"
    assume e: "e \<in> set (edges g)" and s: "?s \<in> set (map nid (nodes g))"
      and t: "?t \<in> set (map nid (nodes g))" and nd: "\<not> dependsOnError g ?t"
    from ranked_if [OF t nd] obtain n where n: "computeRanks g ?t = Some (Ranked n)" ..
    from part1b e s n obtain m where "m < n" "computeRanks g ?s = Some (Ranked m)"
      by blast
    with n show "\<exists>m n. computeRanks g ?s = Some (Ranked m)
        \<and> computeRanks g ?t = Some (Ranked n) \<and> m < n"
      by blast
  qed
  have part3: "\<forall>r :: string \<Rightarrow> nat.
            (\<forall>e \<in> set (edges g). \<forall>m n.
                computeRanks g (nodeId (edgeSource e)) = Some (Ranked m)
                \<and> computeRanks g (nodeId (edgeTarget e)) = Some (Ranked n)
                \<longrightarrow> r (nodeId (edgeSource e)) < r (nodeId (edgeTarget e)))
            \<longrightarrow> (\<forall>v n. computeRanks g v = Some (Ranked n) \<longrightarrow> n \<le> r v)"
  proof (intro allI impI)
    fix r :: "string \<Rightarrow> nat" and v n
    assume valid: "\<forall>e \<in> set (edges g). \<forall>m n.
                computeRanks g (nodeId (edgeSource e)) = Some (Ranked m)
                \<and> computeRanks g (nodeId (edgeTarget e)) = Some (Ranked n)
                \<longrightarrow> r (nodeId (edgeSource e)) < r (nodeId (edgeTarget e))"
      and "computeRanks g v = Some (Ranked n)"
    then have vn: "(v, n) \<in> set res" using ranked_D [OF L] by blast
    have R: "r s < r t" if st: "(s, t) \<in> set (remainingEdges g)" for s t
    proof -
      from remainingEdges_D [OF st]
      have d: "(s, t) \<in> set (deps g)" and s: "s \<in> set (remainingNodes g)"
        and t: "t \<in> set (remainingNodes g)" by simp_all
      from s obtain m where "(s, m) \<in> set res" unfolding rem ..
      then have rs: "computeRanks g s = Some (Ranked m)" by (rule ranked_I [OF L])
      from t obtain k where "(t, k) \<in> set res" unfolding rem ..
      then have rt: "computeRanks g t = Some (Ranked k)" by (rule ranked_I [OF L])
      from d obtain e where e: "e \<in> set (edges g)" "nodeId (edgeSource e) = s"
        "nodeId (edgeTarget e) = t"
        by (auto simp add: deps_def)
      from valid e(1) rs rt show ?thesis
        unfolding e(2,3) [symmetric] by blast
    qed
    show "n \<le> r v"
    proof (rule layering_minimal [OF L _ _ _ _ vn, of "remainingEdges g" r])
      fix s t assume "(s, t) \<in> set (remainingEdges g)"
      then show "(s, t) \<in> set (remainingEdges g) \<and> s \<in> set (remainingNodes g)"
        using remainingEdges_D by blast
    next
      fix s t assume "(s, t) \<in> set (remainingEdges g)"
      then show "r s < r t" by (rule R)
    qed simp_all
  qed
  from part0 part0b part0c part1 part1b part3 show ?thesis by (intro conjI)
qed

lemma chainWithError_A: "computeRanks chainWithError ''A'' = Some (Ranked 0)"
  by code_simp

lemma chainWithError_B: "computeRanks chainWithError ''B'' = Some (Ranked 1)"
  by code_simp

lemma chainWithError_C: "computeRanks chainWithError ''C'' = Some (Ranked 2)"
  by code_simp

lemma chainWithError_D: "computeRanks chainWithError ''D'' = Some (Unorderable DegradedInput)"
  by code_simp

lemma chainWithError_E: "computeRanks chainWithError ''E'' = Some (Unorderable DegradedInput)"
  by code_simp

theorem computeRanks_acyclic_witness:
  "acyclic (set (deps chainWithError))
   \<and> computeRanks chainWithError ''A'' = Some (Ranked 0)
   \<and> computeRanks chainWithError ''B'' = Some (Ranked 1)
   \<and> computeRanks chainWithError ''C'' = Some (Ranked 2)
   \<and> computeRanks chainWithError ''D'' = Some (Unorderable DegradedInput)
   \<and> computeRanks chainWithError ''E'' = Some (Unorderable DegradedInput)
   \<and> \<not> dependsOnError chainWithError ''C''
   \<and> dependsOnError chainWithError ''E''"
proof -
  have a: "acyclic (set (deps chainWithError))"
  proof (rule acyclicI_order)
    fix a b assume "(a, b) \<in> set (deps chainWithError)"
    then show "(if b = ''A'' then 3 else if b = ''B'' \<or> b = ''D'' then 2 else (1 :: nat))
        < (if a = ''A'' then 3 else if a = ''B'' \<or> a = ''D'' then 2 else 1)"
      by (auto simp add: deps_def chainWithError_def)
  qed
  note all = conjunct1 [OF computeRanks_acyclic [OF a]]
  have ids: "''C'' \<in> set (map nid (nodes chainWithError))"
    "''E'' \<in> set (map nid (nodes chainWithError))"
    by (simp_all add: chainWithError_def)
  from bspec [OF all ids(1)] chainWithError_C have c: "\<not> dependsOnError chainWithError ''C''"
    by simp
  from bspec [OF all ids(2)] chainWithError_E have e: "dependsOnError chainWithError ''E''"
    by simp
  from a chainWithError_A chainWithError_B chainWithError_C chainWithError_D chainWithError_E c e
  show ?thesis by (intro conjI)
qed

end
